theory Spec2Isabelle
  imports Main "HOL-Library.Word" "HOL-Library.Sublist"
begin

unbundle bit_operations_syntax

section \<open>The AIF image container: a shallow embedding of the codec\<close>

text \<open>
  Machine types of the C source.  \<open>uint8_t\<close>, \<open>uint16_t\<close> and \<open>uint32_t\<close> are words of
  that width, so their arithmetic wraps.  \<open>size_t\<close> values (buffer offsets, run lengths,
  byte counts) are natural numbers: on the 64-bit target every such value in the row
  codec is bounded by \<open>2^32 * 5\<close> and cannot wrap; the one product that can exceed
  \<open>2^64\<close> (the whole-image byte count of a stage) is computed on 64-bit words.
  A byte buffer is a list of bytes and a pointer into it is an offset.  An output
  buffer that the code fills through a cursor starting at 0 is the list of bytes written
  so far, the cursor being its length.
\<close>

type_synonym u8 = "8 word"
type_synonym u16 = "16 word"
type_synonym u32 = "32 word"

datatype error =
    UnexpectedEOF          \<comment> \<open>\<open>"Unexpected EOF"\<close>\<close>
  | NotValidAIF            \<comment> \<open>\<open>"'%s' is not a valid AIF file."\<close>\<close>
  | InvalidCompressedData  \<comment> \<open>\<open>"Invalid compressed data"\<close>\<close>

subsection \<open>Header constants (aif.h)\<close>

definition AIF_CHECKSUM_OFFSET :: nat where "AIF_CHECKSUM_OFFSET = 4"
definition AIF_PXL_FMT_OFFSET :: nat where "AIF_PXL_FMT_OFFSET = 6"
definition AIF_COMPRESSION_OFFSET :: nat where "AIF_COMPRESSION_OFFSET = 7"
definition AIF_WIDTH_OFFSET :: nat where "AIF_WIDTH_OFFSET = 8"
definition AIF_HEIGHT_OFFSET :: nat where "AIF_HEIGHT_OFFSET = 12"
definition AIF_PXL_OFFSET_OFFSET :: nat where "AIF_PXL_OFFSET_OFFSET = 16"
definition AIF_HEADER_SIZE :: nat where "AIF_HEADER_SIZE = 20"
definition AIF_FMT_RGB8 :: u8 where "AIF_FMT_RGB8 = 1"
definition AIF_FMT_GRAY8 :: u8 where "AIF_FMT_GRAY8 = 2"
definition AIF_COMPRESSION_NONE :: u8 where "AIF_COMPRESSION_NONE = 0"
definition AIF_COMPRESSION_RLE :: u8 where "AIF_COMPRESSION_RLE = 1"

subsection \<open>Byte copies\<close>

text \<open>The loop \<open>for (k = 0; k < n; k++) dst[...] = buf[off + k]\<close>: the \<open>n\<close> bytes read.\<close>

definition copy_bytes :: "u8 list \<Rightarrow> nat \<Rightarrow> nat \<Rightarrow> u8 list" where
  "copy_bytes buf off n = map (\<lambda>k. buf ! (off + k)) [0..<n]"

subsection \<open>Row codec: encoding\<close>

text \<open>\<open>pixels_equal(a, b, bpp)\<close> with \<open>a = buf + i\<close> and \<open>b = buf + j\<close>.\<close>

definition pixels_equal :: "u8 list \<Rightarrow> nat \<Rightarrow> nat \<Rightarrow> nat \<Rightarrow> bool" where
  "pixels_equal buf i j bpp = list_all (\<lambda>k. buf ! (i + k) = buf ! (j + k)) [0..<bpp]"

text \<open>
  The loop of \<open>measure_run\<close>.  The test \<open>(uint32_t)(start + run) < width\<close> truncates the
  \<open>size_t\<close> sum to 32 bits; the pixel offsets \<open>(size_t)(start + run) * bpp\<close> do not.
\<close>

function measure_run_loop :: "u8 list \<Rightarrow> u32 \<Rightarrow> nat \<Rightarrow> u32 \<Rightarrow> nat \<Rightarrow> nat" where
  "measure_run_loop row width bpp start run =
     (if start + of_nat run < width then
        (if \<not> pixels_equal row (unat start * bpp) ((unat start + run) * bpp) bpp then run
         else measure_run_loop row width bpp start (run + 1))
      else run)"
  by pat_completeness auto

lemma u32_less_Suc: "(x :: u32) < w \<Longrightarrow> unat (x + 1) = Suc (unat x)"
proof -
  assume "x < w"
  then have "unat x < unat w" by (simp add: word_less_nat_alt)
  moreover have "unat w < 2 ^ 32" using unsigned_less [of w] by simp
  ultimately have "unat x + 1 < 2 ^ LENGTH(32)" by simp
  then have "unat (x + 1) = unat x + unat (1 :: u32)"
    by (simp add: unat_add_lem [THEN iffD1])
  then show ?thesis by simp
qed

termination measure_run_loop
proof (relation "measure (\<lambda>(row, width, bpp, start, run). 2 ^ 32 - unat (start + of_nat run))")
  show "wf (measure (\<lambda>(row :: u8 list, width :: u32, bpp :: nat, start :: u32, run :: nat).
              2 ^ 32 - unat (start + of_nat run)))"
    by simp
next
  fix row :: "u8 list" and width :: u32 and bpp :: nat and start :: u32 and run :: nat
  assume lt: "start + of_nat run < width"
  have "unat (start + of_nat run + 1) = Suc (unat (start + of_nat run))"
    using lt by (rule u32_less_Suc)
  moreover have "unat (start + of_nat run) < 2 ^ 32"
    using unsigned_less [of "start + of_nat run"] by simp
  moreover have "start + of_nat (run + 1) = start + of_nat run + 1"
    by simp
  ultimately have "2 ^ 32 - unat (start + of_nat (run + 1)) < 2 ^ 32 - unat (start + of_nat run)"
    by (simp only: diff_less_mono2 lessI)
  then show "((row, width, bpp, start, run + 1), (row, width, bpp, start, run))
      \<in> measure (\<lambda>(row, width, bpp, start, run). 2 ^ 32 - unat (start + of_nat run))"
    by (simp only: in_measure prod.case)
qed

declare measure_run_loop.simps [simp del]

definition measure_run :: "u8 list \<Rightarrow> u32 \<Rightarrow> nat \<Rightarrow> u32 \<Rightarrow> nat" where
  "measure_run row width bpp start = measure_run_loop row width bpp start 1"

text \<open>
  \<open>write_repeat_blocks(pixel, run, bpp, out, &out_pos)\<close> with \<open>pixel = buf + off\<close>;
  \<open>out\<close> holds the bytes \<open>out[0 .. out_pos)\<close> and the result is the buffer after the call.
\<close>

function write_repeat_blocks_loop :: "u8 list \<Rightarrow> nat \<Rightarrow> nat \<Rightarrow> nat \<Rightarrow> u8 list \<Rightarrow> u8 list" where
  "write_repeat_blocks_loop buf off remaining bpp out =
     (if remaining > 0 then
        (let chunk = (if remaining > 255 then 255 else of_nat remaining) :: u8;
             out1 = out @ [chunk];
             out2 = out1 @ copy_bytes buf off bpp
         in write_repeat_blocks_loop buf off (remaining - unat chunk) bpp out2)
      else out)"
  by pat_completeness auto

lemma unat_chunk:
  "unat ((if n > 255 then 255 else of_nat n) :: u8) = (if n > 255 then 255 else n)"
  by (simp add: unat_of_nat take_bit_nat_eq_self)

termination write_repeat_blocks_loop
  by (relation "measure (\<lambda>(buf, off, remaining, bpp, out). remaining)")
    (simp_all only: wf_measure in_measure prod.case unat_chunk split: if_splits, simp_all)

declare write_repeat_blocks_loop.simps [simp del]

definition write_repeat_blocks :: "u8 list \<Rightarrow> nat \<Rightarrow> nat \<Rightarrow> nat \<Rightarrow> u8 list \<Rightarrow> u8 list" where
  "write_repeat_blocks buf off run bpp out = write_repeat_blocks_loop buf off run bpp out"

text \<open>\<open>write_literal_blocks(row, start, literal_pixels, bpp, out, &out_pos)\<close>.\<close>

function write_literal_blocks_loop ::
  "u8 list \<Rightarrow> u32 \<Rightarrow> nat \<Rightarrow> nat \<Rightarrow> nat \<Rightarrow> u8 list \<Rightarrow> u8 list" where
  "write_literal_blocks_loop row start literal_pixels bpp emitted out =
     (if emitted < literal_pixels then
        (let chunk = (if literal_pixels - emitted > 255 then 255
                      else of_nat (literal_pixels - emitted)) :: u8;
             out1 = out @ [0];
             out2 = out1 @ [chunk];
             base = (unat start + emitted) * bpp;
             out3 = out2 @ concat (map (\<lambda>p. copy_bytes row (base + p * bpp) bpp) [0..<unat chunk])
         in write_literal_blocks_loop row start literal_pixels bpp (emitted + unat chunk) out3)
      else out)"
  by pat_completeness auto

termination write_literal_blocks_loop
  by (relation "measure (\<lambda>(row, start, literal_pixels, bpp, emitted, out). literal_pixels - emitted)")
    (simp_all only: wf_measure in_measure prod.case unat_chunk split: if_splits, simp_all)

declare write_literal_blocks_loop.simps [simp del]

definition write_literal_blocks ::
  "u8 list \<Rightarrow> u32 \<Rightarrow> nat \<Rightarrow> nat \<Rightarrow> u8 list \<Rightarrow> u8 list" where
  "write_literal_blocks row start literal_pixels bpp out =
     write_literal_blocks_loop row start literal_pixels bpp 0 out"

text \<open>The inner loop of \<open>compress_row\<close> that advances \<open>col\<close> to the next run or the row end.\<close>

function gather_literals :: "u8 list \<Rightarrow> u32 \<Rightarrow> nat \<Rightarrow> u32 \<Rightarrow> u32" where
  "gather_literals row width bpp col =
     (if col < width then
        (let next_run = measure_run row width bpp col
         in if next_run \<ge> 2 then col else gather_literals row width bpp (col + 1))
      else col)"
  by pat_completeness auto

termination gather_literals
proof (relation "measure (\<lambda>(row, width, bpp, col). unat width - unat col)")
  show "wf (measure (\<lambda>(row :: u8 list, width :: u32, bpp :: nat, col :: u32). unat width - unat col))"
    by simp
next
  fix row :: "u8 list" and width :: u32 and bpp :: nat and col :: u32
  assume lt: "col < width"
  then have "unat col < unat width" by (simp add: word_less_nat_alt)
  moreover have "unat (col + 1) = Suc (unat col)" using lt by (rule u32_less_Suc)
  ultimately have "unat width - unat (col + 1) < unat width - unat col" by simp
  then show "((row, width, bpp, col + 1), (row, width, bpp, col))
      \<in> measure (\<lambda>(row, width, bpp, col). unat width - unat col)"
    by (simp only: in_measure prod.case)
qed

declare gather_literals.simps [simp del]

lemma unat_add_of_nat:
  "unat (start :: u32) + n \<le> unat (width :: u32) \<Longrightarrow> unat (start + of_nat n) = unat start + n"
proof -
  assume le: "unat start + n \<le> unat width"
  have w: "unat width < 2 ^ 32" using unsigned_less [of width] by simp
  with le have n: "n < 2 ^ 32" by simp
  then have un: "unat (of_nat n :: u32) = n"
    by (simp add: unat_of_nat take_bit_nat_eq_self)
  from le w have "unat start + unat (of_nat n :: u32) < 2 ^ LENGTH(32)" by (simp add: un)
  then have "unat (start + of_nat n) = unat start + unat (of_nat n :: u32)"
    by (simp only: unat_add_lem [THEN iffD1])
  then show ?thesis by (simp add: un)
qed

lemma measure_run_loop_bounds:
  "unat start + run \<le> unat width \<Longrightarrow>
   run \<le> measure_run_loop row width bpp start run \<and>
   unat start + measure_run_loop row width bpp start run \<le> unat width"
proof (induction row width bpp start run rule: measure_run_loop.induct)
  case (1 row width bpp start run)
  note le = \<open>unat start + run \<le> unat width\<close>
  have eq: "unat (start + of_nat run) = unat start + run"
    using le by (rule unat_add_of_nat)
  show ?case
  proof (cases "start + of_nat run < width")
    case False
    then show ?thesis using le by (subst (1 2) measure_run_loop.simps) simp
  next
    case lt: True
    then have "unat start + run < unat width" by (simp add: word_less_nat_alt eq)
    then have le': "unat start + (run + 1) \<le> unat width" by simp
    show ?thesis
    proof (cases "pixels_equal row (unat start * bpp) ((unat start + run) * bpp) bpp")
      case False
      then show ?thesis using le lt by (subst (1 2) measure_run_loop.simps) simp
    next
      case True
      from "1.IH" [OF lt _ le'] True
      have "run + 1 \<le> measure_run_loop row width bpp start (run + 1) \<and>
            unat start + measure_run_loop row width bpp start (run + 1) \<le> unat width"
        by simp
      then show ?thesis using lt True by (subst (1 2) measure_run_loop.simps) simp
    qed
  qed
qed

lemma measure_run_bounds:
  assumes "col < width"
  shows "1 \<le> measure_run row width bpp col" and "unat col + measure_run row width bpp col \<le> unat width"
proof -
  from assms have "unat col + 1 \<le> unat width" by (simp add: word_less_nat_alt)
  from measure_run_loop_bounds [OF this, of row bpp]
  show "1 \<le> measure_run row width bpp col" and "unat col + measure_run row width bpp col \<le> unat width"
    by (simp_all add: measure_run_def)
qed

lemma gather_literals_bounds:
  "unat col \<le> unat width \<Longrightarrow>
   unat col \<le> unat (gather_literals row width bpp col) \<and>
   unat (gather_literals row width bpp col) \<le> unat width"
proof (induction row width bpp col rule: gather_literals.induct)
  case (1 row width bpp col)
  show ?case
  proof (cases "col < width \<and> \<not> 2 \<le> measure_run row width bpp col")
    case False
    then show ?thesis using "1.prems" by (subst (1 2) gather_literals.simps) (auto simp: Let_def)
  next
    case True
    then have lt: "col < width" and nr: "\<not> 2 \<le> measure_run row width bpp col" by simp_all
    have suc: "unat (col + 1) = Suc (unat col)" using lt by (rule u32_less_Suc)
    from lt have "unat col < unat width" by (simp add: word_less_nat_alt)
    then have "unat (col + 1) \<le> unat width" by (simp add: suc)
    from "1.IH" [OF lt refl nr this] suc
    have "unat col \<le> unat (gather_literals row width bpp (col + 1)) \<and>
          unat (gather_literals row width bpp (col + 1)) \<le> unat width"
      by simp
    then show ?thesis using lt nr by (subst (1 2) gather_literals.simps) (simp add: Let_def)
  qed
qed

text \<open>
  The outer loop of \<open>compress_row\<close>; \<open>col += run\<close> is a 32-bit addition.  In
  \<open>(size_t)col - (size_t)lit_start\<close> the column has advanced past \<open>lit_start\<close>
  (\<open>gather_literals_bounds\<close>), so the subtraction does not wrap.
\<close>

function compress_row_loop :: "u8 list \<Rightarrow> u32 \<Rightarrow> nat \<Rightarrow> u32 \<Rightarrow> u8 list \<Rightarrow> u8 list" where
  "compress_row_loop row width bpp col out =
     (if col < width then
        (let run = measure_run row width bpp col
         in if run \<ge> 2 then
              compress_row_loop row width bpp (col + of_nat run)
                (write_repeat_blocks row (unat col * bpp) run bpp out)
            else
              (let lit_start = col;
                   col' = gather_literals row width bpp (col + 1);
                   literal_pixels = unat col' - unat lit_start
               in compress_row_loop row width bpp col'
                    (write_literal_blocks row lit_start literal_pixels bpp out)))
      else out)"
  by pat_completeness auto

termination compress_row_loop
proof (relation "measure (\<lambda>(row, width, bpp, col, out). unat width - unat col)")
  show "wf (measure (\<lambda>(row :: u8 list, width :: u32, bpp :: nat, col :: u32, out :: u8 list).
              unat width - unat col))"
    by simp
next
  fix row :: "u8 list" and width :: u32 and bpp :: nat and col :: u32 and out :: "u8 list" and run :: nat
  assume lt: "col < width" and run: "run = measure_run row width bpp col" and two: "2 \<le> run"
  from measure_run_bounds(2) [OF lt, of row bpp] run
  have le: "unat col + run \<le> unat width" by simp
  then have "unat (col + of_nat run) = unat col + run" by (rule unat_add_of_nat)
  with le two have "unat width - unat (col + of_nat run) < unat width - unat col" by simp
  then show "((row, width, bpp, col + of_nat run, write_repeat_blocks row (unat col * bpp) run bpp out),
              (row, width, bpp, col, out))
      \<in> measure (\<lambda>(row, width, bpp, col, out). unat width - unat col)"
    by (simp only: in_measure prod.case)
next
  fix row :: "u8 list" and width :: u32 and bpp :: nat and col :: u32 and out :: "u8 list"
    and run :: nat and lit_start col' :: u32 and literal_pixels :: nat
  assume lt: "col < width" and c': "col' = gather_literals row width bpp (col + 1)"
  have suc: "unat (col + 1) = Suc (unat col)" using lt by (rule u32_less_Suc)
  from lt have "unat col < unat width" by (simp add: word_less_nat_alt)
  then have "unat (col + 1) \<le> unat width" by (simp add: suc)
  from gather_literals_bounds [OF this, of row bpp] suc c'
  have "unat col < unat col'" and "unat col' \<le> unat width" by simp_all
  then have "unat width - unat col' < unat width - unat col" by simp
  then show "((row, width, bpp, col', write_literal_blocks row lit_start literal_pixels bpp out),
              (row, width, bpp, col, out))
      \<in> measure (\<lambda>(row, width, bpp, col, out). unat width - unat col)"
    by (simp only: in_measure prod.case)
qed

declare compress_row_loop.simps [simp del]

definition compress_row :: "u8 list \<Rightarrow> u32 \<Rightarrow> nat \<Rightarrow> u8 list" where
  "compress_row row width bpp = compress_row_loop row width bpp 0 []"

subsection \<open>Row codec: decoding\<close>

text \<open>
  The decoder's cursors: \<open>cp\<close> into the compressed row \<open>cdata\<close> (the source's
  \<open>comp\<close>), and the output row \<open>out\<close> whose length is the cursor \<open>op\<close>.  \<open>FALSE\<close> is \<open>None\<close>; \<open>TRUE\<close> returns the advanced cursors.
  \<open>pixel_buffer\<close> has room for 3 bytes: every caller passes \<open>bpp\<close> 1 or 3.
\<close>

definition decompress_repeat_block ::
  "u8 list \<Rightarrow> u16 \<Rightarrow> nat \<Rightarrow> nat \<Rightarrow> nat \<Rightarrow> u8 list \<Rightarrow> u8 \<Rightarrow> (nat \<times> u8 list) option" where
  "decompress_repeat_block cdata row_len row_bytes bpp cp out repeat_count =
     (if cp + bpp > unat row_len then None
      else
        (let pixel_buffer = copy_bytes cdata cp bpp;
             cp' = cp + bpp;
             required = unat repeat_count * bpp
         in if length out + required > row_bytes then None
            else Some (cp', out @ concat (replicate (unat repeat_count) pixel_buffer))))"

definition decompress_literal_block ::
  "u8 list \<Rightarrow> u16 \<Rightarrow> nat \<Rightarrow> nat \<Rightarrow> nat \<Rightarrow> u8 list \<Rightarrow> (nat \<times> u8 list) option" where
  "decompress_literal_block cdata row_len row_bytes bpp cp out =
     (if cp \<ge> unat row_len then None
      else
        (let literal_count = cdata ! cp;
             cp1 = cp + 1
         in if literal_count = 0 then None
            else
              (let needed = unat literal_count * bpp
               in if cp1 + needed > unat row_len then None
                  else if length out + needed > row_bytes then None
                  else Some (cp1 + needed,
                             out @ concat (map (\<lambda>p. copy_bytes cdata (cp1 + p * bpp) bpp)
                                             [0..<unat literal_count])))))"

text \<open>One iteration of the loop of \<open>decompress_row\<close>: read the tag, decode one block.\<close>

definition decompress_block ::
  "u8 list \<Rightarrow> u16 \<Rightarrow> nat \<Rightarrow> nat \<Rightarrow> nat \<Rightarrow> u8 list \<Rightarrow> (nat \<times> u8 list) option" where
  "decompress_block cdata row_len row_bytes bpp cp out =
     (let tag = cdata ! cp;
          cp1 = cp + 1
      in if tag \<noteq> 0 then decompress_repeat_block cdata row_len row_bytes bpp cp1 out tag
         else decompress_literal_block cdata row_len row_bytes bpp cp1 out)"

lemma decompress_block_advances:
  "decompress_block cdata row_len row_bytes bpp cp out = Some (cp', out') \<Longrightarrow> cp < cp'"
  by (auto simp: decompress_block_def decompress_repeat_block_def decompress_literal_block_def
      Let_def split: if_splits)

text \<open>The loop of \<open>decompress_row\<close>; it returns the cursors at loop exit.\<close>

function decompress_row_loop ::
  "u8 list \<Rightarrow> u16 \<Rightarrow> nat \<Rightarrow> nat \<Rightarrow> nat \<Rightarrow> u8 list \<Rightarrow> (nat \<times> u8 list) option" where
  "decompress_row_loop cdata row_len row_bytes bpp cp out =
     (if length out < row_bytes \<and> cp < unat row_len then
        (case decompress_block cdata row_len row_bytes bpp cp out of
           None \<Rightarrow> None
         | Some (cp', out') \<Rightarrow> decompress_row_loop cdata row_len row_bytes bpp cp' out')
      else Some (cp, out))"
  by pat_completeness auto

termination decompress_row_loop
proof (relation "measure (\<lambda>(cdata, row_len, row_bytes, bpp, cp, out). unat row_len - cp)")
  show "wf (measure (\<lambda>(cdata :: u8 list, row_len :: u16, row_bytes :: nat, bpp :: nat, cp :: nat,
              out :: u8 list). unat row_len - cp))"
    by simp
next
  fix cdata :: "u8 list" and row_len :: u16 and row_bytes bpp cp :: nat and out :: "u8 list"
    and x2 :: "nat \<times> u8 list" and cp' :: nat and out' :: "u8 list"
  assume c: "length out < row_bytes \<and> cp < unat row_len"
    and b: "decompress_block cdata row_len row_bytes bpp cp out = Some x2"
    and x: "(cp', out') = x2"
  from b x have "cp < cp'" by (auto dest: decompress_block_advances)
  with c have "unat row_len - cp' < unat row_len - cp" by (intro diff_less_mono2) simp_all
  then show "((cdata, row_len, row_bytes, bpp, cp', out'), (cdata, row_len, row_bytes, bpp, cp, out))
      \<in> measure (\<lambda>(cdata, row_len, row_bytes, bpp, cp, out). unat row_len - cp)"
    by (simp only: in_measure prod.case)
qed

declare decompress_row_loop.simps [simp del]

text \<open>After the loop the row must be exactly filled.\<close>

definition decompress_row :: "u8 list \<Rightarrow> u16 \<Rightarrow> nat \<Rightarrow> nat \<Rightarrow> u8 list option" where
  "decompress_row cdata row_len row_bytes bpp =
     (case decompress_row_loop cdata row_len row_bytes bpp 0 [] of
        None \<Rightarrow> None
      | Some (cp, out) \<Rightarrow> if length out \<noteq> row_bytes then None else Some out)"

text \<open>
  The cursors with which the loop of \<open>decompress_row\<close> starts an iteration or leaves:
  initially \<open>cp = 0\<close> and an empty output, and after each block that decodes, the cursors
  that block returned.
\<close>

inductive decode_reaches :: "u8 list \<Rightarrow> u16 \<Rightarrow> nat \<Rightarrow> nat \<Rightarrow> nat \<Rightarrow> u8 list \<Rightarrow> bool"
  for cdata :: "u8 list" and row_len :: u16 and row_bytes :: nat and bpp :: nat where
  start: "decode_reaches cdata row_len row_bytes bpp 0 []"
| block: "decode_reaches cdata row_len row_bytes bpp cp out \<Longrightarrow>
          length out < row_bytes \<Longrightarrow> cp < unat row_len \<Longrightarrow>
          decompress_block cdata row_len row_bytes bpp cp out = Some (cp', out') \<Longrightarrow>
          decode_reaches cdata row_len row_bytes bpp cp' out'"

code_pred decode_reaches .

subsection \<open>Header model\<close>

definition read_le_u16 :: "u8 list \<Rightarrow> nat \<Rightarrow> u16" where
  "read_le_u16 buf off = ucast (buf ! off) OR push_bit 8 (ucast (buf ! (off + 1)))"

definition read_le_u32 :: "u8 list \<Rightarrow> nat \<Rightarrow> u32" where
  "read_le_u32 buf off =
     ucast (buf ! off) OR push_bit 8 (ucast (buf ! (off + 1)))
       OR push_bit 16 (ucast (buf ! (off + 2))) OR push_bit 24 (ucast (buf ! (off + 3)))"

definition aif_magic_valid :: "u8 list \<Rightarrow> bool" where
  "aif_magic_valid h \<longleftrightarrow> h ! 0 = 0x41 \<and> h ! 1 = 0x49 \<and> h ! 2 = 0x46 \<and> h ! 3 = 0x00"

definition aif_format_valid :: "u8 \<Rightarrow> bool" where
  "aif_format_valid format \<longleftrightarrow> format = AIF_FMT_RGB8 \<or> format = AIF_FMT_GRAY8"

definition aif_dim_valid :: "u32 \<Rightarrow> bool" where
  "aif_dim_valid n \<longleftrightarrow> n > 0"

subsection \<open>Checksum\<close>

text \<open>
  A file is the list of its bytes.  \<open>compute_checksum\<close> seeks to offset 0 and reads
  \<open>file_size\<close> bytes with \<open>fgetc\<close>; a read beyond the end of the file is \<open>EOF\<close> and
  the program exits with \<open>"Unexpected EOF"\<close>.  \<open>pos\<close>, \<open>sum1\<close> and \<open>sum2\<close> are C
  \<open>int\<close>s that stay within \<open>0 .. file_size\<close> and \<open>0 .. 255\<close>.
\<close>

function compute_checksum_loop :: "u8 list \<Rightarrow> int \<Rightarrow> int \<Rightarrow> int \<Rightarrow> int \<Rightarrow> error + (int \<times> int)" where
  "compute_checksum_loop f file_size pos sum1 sum2 =
     (if pos < file_size then
        (if \<not> nat pos < length f then Inl UnexpectedEOF
         else
           (let byte = uint (f ! nat pos);
                byte' = (if pos = int AIF_CHECKSUM_OFFSET \<or> pos = int AIF_CHECKSUM_OFFSET + 1
                         then 0 else byte);
                sum1' = (sum1 + byte') mod 256;
                sum2' = (sum2 + sum1') mod 256
            in compute_checksum_loop f file_size (pos + 1) sum1' sum2'))
      else Inr (sum1, sum2))"
  by pat_completeness auto

termination compute_checksum_loop
  by (relation "measure (\<lambda>(f, file_size, pos, sum1, sum2). nat (file_size - pos))") simp_all

declare compute_checksum_loop.simps [simp del]

definition compute_checksum :: "u8 list \<Rightarrow> int \<Rightarrow> error + u16" where
  "compute_checksum f file_size =
     (case compute_checksum_loop f file_size 0 0 0 of
        Inl e \<Rightarrow> Inl e
      | Inr (sum1, sum2) \<Rightarrow> Inr (word_of_int (push_bit 8 sum2 OR sum1)))"

text \<open>
  The checksum as the specification words it: a two-accumulator running sum over the
  bytes at offsets \<open>0 .. file_size - 1\<close>, the bytes at offsets 4 and 5 counted as zero,
  and the value \<open>(sum2 << 8) | sum1\<close>.
\<close>

definition checksum_step :: "int \<times> int \<Rightarrow> int \<Rightarrow> int \<times> int" where
  "checksum_step acc byte =
     (case acc of (sum1, sum2) \<Rightarrow>
        (let sum1' = (sum1 + byte) mod 256; sum2' = (sum2 + sum1') mod 256 in (sum1', sum2')))"

definition checksum_bytes :: "u8 list \<Rightarrow> nat \<Rightarrow> int list" where
  "checksum_bytes bytes file_size =
     map (\<lambda>i. if i = 4 \<or> i = 5 then 0 else uint (bytes ! i)) [0..<file_size]"

definition checksum_spec :: "u8 list \<Rightarrow> nat \<Rightarrow> u16" where
  "checksum_spec bytes file_size =
     (case foldl checksum_step (0, 0) (checksum_bytes bytes file_size) of
        (sum1, sum2) \<Rightarrow> word_of_int (push_bit 8 sum2 OR sum1))"

text \<open>
  The closing steps of every mutating stage: the checksum of the written file is stored
  little-endian into the in-memory header
  (\<open>header[4] = c & 0xFF; header[5] = (c >> 8) & 0xFF\<close>), and the header bytes are written
  again at offset 0 of the file.
\<close>

definition store_checksum :: "u8 list \<Rightarrow> u16 \<Rightarrow> u8 list" where
  "store_checksum header new_checksum =
     (header[AIF_CHECKSUM_OFFSET := ucast (new_checksum AND 0xFF)])
       [AIF_CHECKSUM_OFFSET + 1 := ucast (drop_bit 8 new_checksum AND 0xFF)]"

definition rewrite_header :: "u8 list \<Rightarrow> u8 list \<Rightarrow> u8 list" where
  "rewrite_header header file = take AIF_HEADER_SIZE header @ drop AIF_HEADER_SIZE file"

subsection \<open>Image codec\<close>

text \<open>
  \<open>aif_write_compressed_rows\<close>.  The output file is the list of bytes written so far;
  every \<open>fwrite\<close> appends and is taken to succeed.  \<open>row = pixels + r * row_bytes\<close> is
  the buffer from that offset on.  The function returns the file and \<open>total_n\<close> (the
  source's \<open>total\<close>).
\<close>

function aif_write_compressed_rows_loop ::
  "u8 list \<Rightarrow> u8 list \<Rightarrow> u32 \<Rightarrow> u32 \<Rightarrow> nat \<Rightarrow> u32 \<Rightarrow> nat \<Rightarrow> u8 list \<times> nat" where
  "aif_write_compressed_rows_loop out pixels width height bpp r total_n =
     (if r < height then
        (let row_bytes = unat width * bpp;
             row = drop (unat r * row_bytes) pixels;
             buffer = compress_row row width bpp;
             comp_len = length buffer;
             len_bytes = [of_nat (comp_len AND 0xFF) :: u8, of_nat (drop_bit 8 comp_len AND 0xFF)];
             out1 = out @ len_bytes;
             out2 = out1 @ buffer
         in aif_write_compressed_rows_loop out2 pixels width height bpp (r + 1) (total_n + (2 + comp_len)))
      else (out, total_n))"
  by pat_completeness auto

termination aif_write_compressed_rows_loop
proof (relation "measure (\<lambda>(out, pixels, width, height, bpp, r, total_n). unat height - unat r)")
  show "wf (measure (\<lambda>(out :: u8 list, pixels :: u8 list, width :: u32, height :: u32, bpp :: nat,
              r :: u32, total_n :: nat). unat height - unat r))"
    by simp
next
  fix out pixels :: "u8 list" and width height :: u32 and bpp :: nat and r :: u32 and total_n :: nat
    and row_bytes :: nat and row buffer :: "u8 list" and comp_len :: nat
    and len_bytes out1 out2 :: "u8 list"
  assume lt: "r < height"
  then have "unat r < unat height" by (simp add: word_less_nat_alt)
  moreover have "unat (r + 1) = Suc (unat r)" using lt by (rule u32_less_Suc)
  ultimately have "unat height - unat (r + 1) < unat height - unat r" by simp
  then show "((out2, pixels, width, height, bpp, r + 1, total_n + (2 + comp_len)),
              (out, pixels, width, height, bpp, r, total_n))
      \<in> measure (\<lambda>(out, pixels, width, height, bpp, r, total_n). unat height - unat r)"
    by (simp only: in_measure prod.case)
qed

declare aif_write_compressed_rows_loop.simps [simp del]

definition aif_write_compressed_rows ::
  "u8 list \<Rightarrow> u8 list \<Rightarrow> u32 \<Rightarrow> u32 \<Rightarrow> nat \<Rightarrow> u8 list \<times> nat" where
  "aif_write_compressed_rows out pixels width height bpp =
     aif_write_compressed_rows_loop out pixels width height bpp 0 0"

text \<open>
  The bytes that one iteration of the loop of \<open>aif_write_compressed_rows\<close> appends for
  row \<open>r\<close>: the two length bytes and the compressed row.
\<close>

definition row_record :: "u8 list \<Rightarrow> u32 \<Rightarrow> nat \<Rightarrow> nat \<Rightarrow> u8 list" where
  "row_record pixels width bpp r =
     (let buffer = compress_row (drop (r * (unat width * bpp)) pixels) width bpp
      in [of_nat (length buffer AND 0xFF), of_nat (drop_bit 8 (length buffer) AND 0xFF)] @ buffer)"

text \<open>
  \<open>aif_decompress_image\<close>.  \<open>fp\<close> is the unread rest of the input file; a short
  \<open>fread\<close> exits with \<open>"Unexpected EOF"\<close>.  \<open>full_pixels\<close> holds the rows decoded so
  far: each successful \<open>decompress_row\<close> fills exactly \<open>row_bytes\<close> bytes at offset
  \<open>row * row_bytes\<close>.
\<close>

function aif_decompress_image_loop ::
  "u8 list \<Rightarrow> u32 \<Rightarrow> u32 \<Rightarrow> nat \<Rightarrow> u32 \<Rightarrow> u8 list \<Rightarrow> error + u8 list" where
  "aif_decompress_image_loop fp width height bpp row full_pixels =
     (if row < height then
        (if length fp < 2 then Inl UnexpectedEOF
         else
           (let len_buf = take 2 fp;
                fp1 = drop 2 fp;
                row_len = read_le_u16 len_buf 0
            in if length fp1 < unat row_len then Inl UnexpectedEOF
               else
                 (let cdata = take (unat row_len) fp1;
                      fp2 = drop (unat row_len) fp1
                  in case decompress_row cdata row_len (unat width * bpp) bpp of
                       None \<Rightarrow> Inl InvalidCompressedData
                     | Some out_row \<Rightarrow>
                         aif_decompress_image_loop fp2 width height bpp (row + 1)
                           (full_pixels @ out_row))))
      else Inr full_pixels)"
  by pat_completeness auto

termination aif_decompress_image_loop
proof (relation "measure (\<lambda>(fp, width, height, bpp, row, full_pixels). unat height - unat row)")
  show "wf (measure (\<lambda>(fp :: u8 list, width :: u32, height :: u32, bpp :: nat, row :: u32,
              full_pixels :: u8 list). unat height - unat row))"
    by simp
next
  fix fp :: "u8 list" and width height :: u32 and bpp :: nat and row :: u32
    and full_pixels len_buf fp1 :: "u8 list" and row_len :: u16 and cdata fp2 out_row :: "u8 list"
  assume lt: "row < height"
  then have "unat row < unat height" by (simp add: word_less_nat_alt)
  moreover have "unat (row + 1) = Suc (unat row)" using lt by (rule u32_less_Suc)
  ultimately have "unat height - unat (row + 1) < unat height - unat row" by simp
  then show "((fp2, width, height, bpp, row + 1, full_pixels @ out_row),
              (fp, width, height, bpp, row, full_pixels))
      \<in> measure (\<lambda>(fp, width, height, bpp, row, full_pixels). unat height - unat row)"
    by (simp only: in_measure prod.case)
qed

declare aif_decompress_image_loop.simps [simp del]

definition aif_decompress_image :: "u8 list \<Rightarrow> u32 \<Rightarrow> u32 \<Rightarrow> nat \<Rightarrow> error + u8 list" where
  "aif_decompress_image fp width height bpp = aif_decompress_image_loop fp width height bpp 0 []"

subsection \<open>Stages\<close>

type_synonym u64 = "64 word"

text \<open>
  A stage reads an input file that exists (a list of bytes) and either exits with a
  diagnostic or completes.  \<open>Exit e None\<close>: the program exited before the output file
  was opened, so no output exists; \<open>Exit e (Some f)\<close>: it exited after writing \<open>f\<close>;
  \<open>Done f\<close>: it completed and the output file is \<open>f\<close>.  Opening and writing the
  output file are taken to succeed.
\<close>

datatype outcome = Exit error "u8 list option" | Done "u8 list"

text \<open>\<open>aif_open_and_read_header\<close>: the header bytes and the unread rest of the file.\<close>

definition aif_open_and_read_header :: "u8 list \<Rightarrow> error + (u8 list \<times> u8 list)" where
  "aif_open_and_read_header file =
     (if length file < AIF_HEADER_SIZE then Inl UnexpectedEOF
      else Inr (take AIF_HEADER_SIZE file, drop AIF_HEADER_SIZE file))"

text \<open>
  The closing steps of stages 2 to 5: reopen the written file, compute the checksum over
  \<open>int out_file_size = AIF_HEADER_SIZE + (int)data_bytes\<close> bytes, store it in the header
  and rewrite the header.  \<open>AIF_HEADER_SIZE\<close> is a \<open>sizeof\<close> expression, so the sum is
  formed in \<open>size_t\<close> and converted to \<open>int\<close>: the low 32 bits of
  \<open>AIF_HEADER_SIZE + data_bytes\<close>, read as a signed value.
\<close>

definition update_checksum :: "u8 list \<Rightarrow> u8 list \<Rightarrow> nat \<Rightarrow> outcome" where
  "update_checksum header out_file data_bytes =
     (let out_file_size = sint (of_nat AIF_HEADER_SIZE + of_nat data_bytes :: 32 word)
      in case compute_checksum out_file out_file_size of
           Inl e \<Rightarrow> Exit e (Some out_file)
         | Inr new_checksum \<Rightarrow> Done (rewrite_header (store_checksum header new_checksum) out_file))"

definition stage4_decompress :: "u8 list \<Rightarrow> outcome" where
  "stage4_decompress in_file =
     (case aif_open_and_read_header in_file of
        Inl e \<Rightarrow> Exit e None
      | Inr (header, fp) \<Rightarrow>
          (let pixel_format = header ! AIF_PXL_FMT_OFFSET;
               width = read_le_u32 header AIF_WIDTH_OFFSET;
               height = read_le_u32 header AIF_HEIGHT_OFFSET
           in if \<not> aif_magic_valid header then Exit NotValidAIF None
              else if \<not> aif_format_valid pixel_format then Exit NotValidAIF None
              else if \<not> aif_dim_valid width \<or> \<not> aif_dim_valid height then Exit NotValidAIF None
              else
                (let bpp = (if pixel_format = AIF_FMT_RGB8 then 3 else 1)
                 in case aif_decompress_image fp width height bpp of
                      Inl e \<Rightarrow> Exit e None
                    | Inr full_pixels \<Rightarrow>
                        (let total_bytes = unat ((ucast width :: u64) * of_nat bpp * ucast height);
                             header1 = header[AIF_COMPRESSION_OFFSET := AIF_COMPRESSION_NONE];
                             out1 = header1;
                             out2 = out1 @ take total_bytes full_pixels
                         in update_checksum header1 out2 total_bytes))))"

definition stage5_compress :: "u8 list \<Rightarrow> outcome" where
  "stage5_compress in_file =
     (case aif_open_and_read_header in_file of
        Inl e \<Rightarrow> Exit e None
      | Inr (header, fp) \<Rightarrow>
          (let pixel_format = header ! AIF_PXL_FMT_OFFSET;
               compression = header ! AIF_COMPRESSION_OFFSET;
               width = read_le_u32 header AIF_WIDTH_OFFSET;
               height = read_le_u32 header AIF_HEIGHT_OFFSET
           in if \<not> aif_magic_valid header then Exit NotValidAIF None
              else if \<not> aif_format_valid pixel_format then Exit NotValidAIF None
              else if \<not> aif_dim_valid width \<or> \<not> aif_dim_valid height then Exit NotValidAIF None
              else if compression \<noteq> AIF_COMPRESSION_NONE \<and> compression \<noteq> AIF_COMPRESSION_RLE
                then Exit NotValidAIF None
              else
                (let bpp = (if pixel_format = AIF_FMT_RGB8 then 3 else 1);
                     pixel_bytes = unat ((of_nat bpp :: u64) * ucast width * ucast height);
                     loaded = (if compression = AIF_COMPRESSION_NONE
                               then (if length fp < pixel_bytes then Inl UnexpectedEOF
                                     else Inr (take pixel_bytes fp))
                               else aif_decompress_image fp width height bpp)
                 in case loaded of
                      Inl e \<Rightarrow> Exit e None
                    | Inr pixel_data \<Rightarrow>
                        (let header1 = header[AIF_COMPRESSION_OFFSET := AIF_COMPRESSION_RLE];
                             out1 = header1
                         in case aif_write_compressed_rows out1 pixel_data width height bpp of
                              (out2, data_bytes) \<Rightarrow> update_checksum header1 out2 data_bytes))))"

section \<open>Properties of the row codec\<close>

subsection \<open>The worked scenario\<close>

text \<open>
  Claim C6, as stated: for the GRAY8 row \<open>[10,10,10,50]\<close> of width 4, \<open>compress_row\<close>
  produces exactly the bytes \<open>03 0A 00 32\<close>, and \<open>decompress_row\<close> on that stream
  reproduces the row.  On the code neither half holds: the literal block carries its
  count byte, so the stream has five bytes, and the four-byte stream is rejected (its
  literal block would declare a count of \<open>0x32 = 50\<close> pixels).
\<close>

theorem scenario_four_bytes_counterexample:
  "compress_row [10, 10, 10, 50] 4 1 \<noteq> [0x03, 0x0A, 0x00, 0x32]
   \<and> decompress_row [0x03, 0x0A, 0x00, 0x32] 4 4 1 = None"
  by code_simp

text \<open>
  Claim C6, amended: for the GRAY8 row \<open>[10,10,10,50]\<close> of width 4 (bpp 1),
  \<open>compress_row\<close> produces exactly the bytes \<open>03 0A 00 01 32\<close>: a repeat block of count 3
  with pixel \<open>0x0A\<close>, then a literal block with tag 0, count 1 and pixel \<open>0x32\<close>; and
  \<open>decompress_row\<close> on that stream, with declared length 5, reproduces \<open>[10,10,10,50]\<close>.
\<close>

theorem scenario_five_bytes:
  "compress_row [10, 10, 10, 50] 4 1 = [0x03, 0x0A, 0x00, 0x01, 0x32]
   \<and> decompress_row [0x03, 0x0A, 0x00, 0x01, 0x32] 5 4 1 = Some [10, 10, 10, 50]"
  by code_simp

subsection \<open>Trailing bytes in a compressed row\<close>

text \<open>
  Claim C9: success of \<open>decompress_row\<close> only asks that the output cursor reaches
  \<open>width * bpp\<close>, not that the compressed cursor reaches the declared row length.  For the
  row of declared length 7 below, the loop stops with the compressed cursor at 5, the
  two trailing bytes are never read, and the row decodes successfully.
\<close>

theorem trailing_bytes_ignored:
  "decompress_row_loop [0x03, 0x0A, 0x00, 0x01, 0x32, 0xAA, 0xBB] 7 4 1 0 []
     = Some (5, [10, 10, 10, 50])
   \<and> decompress_row [0x03, 0x0A, 0x00, 0x01, 0x32, 0xAA, 0xBB] 7 4 1 = Some [10, 10, 10, 50]
   \<and> decompress_row [0x03, 0x0A, 0x00, 0x01, 0x32] 5 4 1 = Some [10, 10, 10, 50]"
  by code_simp

section \<open>Properties of the checksum\<close>

lemma compute_checksum_loop_foldl:
  "0 \<le> pos \<Longrightarrow> file_size \<le> int (length f) \<Longrightarrow>
   compute_checksum_loop f file_size pos sum1 sum2 =
     Inr (foldl checksum_step (sum1, sum2)
            (map (\<lambda>i. if i = 4 \<or> i = 5 then 0 else uint (f ! i)) [nat pos..<nat file_size]))"
proof (induction f file_size pos sum1 sum2 rule: compute_checksum_loop.induct)
  case (1 f file_size pos sum1 sum2)
  show ?case
  proof (cases "pos < file_size")
    case False
    then show ?thesis by (subst compute_checksum_loop.simps) simp
  next
    case True
    with "1.prems" have inr: "nat pos < length f" by simp
    from True "1.prems" have lt: "nat pos < nat file_size" by simp
    from "1.prems"(1) have suc: "Suc (nat pos) = nat (pos + 1)" by simp
    have up: "[nat pos..<nat file_size] = nat pos # [nat (pos + 1)..<nat file_size]"
      using upt_conv_Cons [OF lt] by (simp only: suc)
    have eq45: "(nat pos = 4 \<or> nat pos = 5) = (pos = 4 \<or> pos = 5)"
      using "1.prems"(1) by auto
    from "1.prems" have p1: "0 \<le> pos + 1" by simp
    define b where "b = (if pos = 4 \<or> pos = 5 then 0 else uint (f ! nat pos))"
    define s1 where "s1 = (sum1 + b) mod 256"
    define s2 where "s2 = (sum2 + s1) mod 256"
    have IH: "compute_checksum_loop f file_size (pos + 1) s1 s2 =
        Inr (foldl checksum_step (s1, s2)
              (map (\<lambda>i. if i = 4 \<or> i = 5 then 0 else uint (f ! i)) [nat (pos + 1)..<nat file_size]))"
      using "1.IH" [OF True _ refl refl refl refl p1 "1.prems"(2)] inr
      by (simp add: AIF_CHECKSUM_OFFSET_def b_def s1_def s2_def)
    have step: "compute_checksum_loop f file_size pos sum1 sum2 =
        compute_checksum_loop f file_size (pos + 1) s1 s2"
      using True inr
      by (subst compute_checksum_loop.simps)
        (simp add: Let_def AIF_CHECKSUM_OFFSET_def b_def s1_def s2_def)
    have hd: "checksum_step (sum1, sum2) (if nat pos = 4 \<or> nat pos = 5 then 0 else uint (f ! nat pos))
        = (s1, s2)"
      by (simp add: checksum_step_def Let_def eq45 b_def s1_def s2_def)
    show ?thesis
      unfolding step up IH
      by (simp only: list.map foldl.simps hd)
  qed
qed

text \<open>
  Claim C3: for every byte sequence and every file size that the sequence covers,
  \<open>compute_checksum\<close> returns the two-accumulator sum of the specification over the
  bytes \<open>0 .. file_size - 1\<close>, with the bytes at offsets 4 and 5 counted as zero, packed
  as \<open>(sum2 << 8) | sum1\<close>.
\<close>

theorem compute_checksum_is_spec:
  "file_size \<le> int (length f) \<Longrightarrow>
   compute_checksum f file_size = Inr (checksum_spec f (nat file_size))"
  by (simp add: compute_checksum_def checksum_spec_def checksum_bytes_def
      compute_checksum_loop_foldl split: prod.splits)

theorem compute_checksum_is_spec_witness:
  "(21 :: int) \<le> int (length [0x41, 0x49, 0x46, 0, 9, 9, 2, 0, 1, 0, 0, 0, 1, 0, 0, 0, 20, 0, 0, 0, 42 :: u8])
   \<and> compute_checksum [0x41, 0x49, 0x46, 0, 9, 9, 2, 0, 1, 0, 0, 0, 1, 0, 0, 0, 20, 0, 0, 0, 42] 21
       = Inr (checksum_spec [0x41, 0x49, 0x46, 0, 9, 9, 2, 0, 1, 0, 0, 0, 1, 0, 0, 0, 20, 0, 0, 0, 42] (nat 21))"
  using compute_checksum_is_spec [of 21 "[0x41, 0x49, 0x46, 0, 9, 9, 2, 0, 1, 0, 0, 0, 1, 0, 0, 0, 20, 0, 0, 0, 42]"]
  by simp

lemma compute_checksum_loop_cong:
  assumes len: "length f' = length f"
    and same: "\<And>i. i \<noteq> 4 \<Longrightarrow> i \<noteq> 5 \<Longrightarrow> f' ! i = f ! i"
  shows "compute_checksum_loop f' file_size pos sum1 sum2 = compute_checksum_loop f file_size pos sum1 sum2"
  using len same
proof (induction f file_size pos sum1 sum2 rule: compute_checksum_loop.induct)
  case (1 f file_size pos sum1 sum2)
  show ?case
  proof (cases "pos < file_size \<and> nat pos < length f")
    case False
    then show ?thesis
      using "1.prems"(1)
      by (subst (1 2) compute_checksum_loop.simps) auto
  next
    case True
    then have lt: "pos < file_size" and inr: "nat pos < length f" by simp_all
    define b where "b = (if pos = 4 \<or> pos = 5 then 0 else uint (f ! nat pos))"
    define s1 where "s1 = (sum1 + b) mod 256"
    define s2 where "s2 = (sum2 + s1) mod 256"
    have b': "b = (if pos = 4 \<or> pos = 5 then 0 else uint (f' ! nat pos))"
      using "1.prems"(2) [of "nat pos"] by (auto simp: b_def)
    have IH: "compute_checksum_loop f' file_size (pos + 1) s1 s2 =
              compute_checksum_loop f file_size (pos + 1) s1 s2"
      using "1.IH" [OF lt _ refl refl refl refl "1.prems"(1)] inr "1.prems"(2)
      by (simp add: AIF_CHECKSUM_OFFSET_def b_def s1_def s2_def)
    have step: "compute_checksum_loop f file_size pos sum1 sum2 =
        compute_checksum_loop f file_size (pos + 1) s1 s2"
      using lt inr
      by (subst compute_checksum_loop.simps)
        (simp add: Let_def AIF_CHECKSUM_OFFSET_def b_def s1_def s2_def)
    have step': "compute_checksum_loop f' file_size pos sum1 sum2 =
        compute_checksum_loop f' file_size (pos + 1) s1 s2"
      using lt inr "1.prems"(1)
      by (subst compute_checksum_loop.simps)
        (simp add: Let_def AIF_CHECKSUM_OFFSET_def b' s1_def s2_def)
    show ?thesis unfolding step step' by (rule IH)
  qed
qed

lemma read_le_u16_stored:
  "(ucast (ucast (c AND 0xFF :: u16) :: u8) :: u16)
     OR push_bit 8 (ucast (ucast (drop_bit 8 c AND 0xFF :: u16) :: u8)) = c"
proof -
  have m: "(0xFF :: u16) = mask 8" by (simp add: mask_eq_exp_minus_1)
  show ?thesis
    unfolding m by (rule bit_word_eqI) (auto simp: bit_simps)
qed

text \<open>
  Claim C4: for a written file consisting of the header bytes and any content, computing
  the checksum, storing its two little-endian bytes into the header's checksum field
  (offsets 4 and 5) and rewriting the header yields a file whose recomputed checksum is
  the value first computed; that file differs from the first in the bytes at offsets 4
  and 5 only, and its stored checksum field reads back as the computed value.
\<close>

theorem checksum_fixed_point:
  assumes hdr: "length header = AIF_HEADER_SIZE"
    and c: "compute_checksum (header @ data) file_size = Inr c"
  shows "compute_checksum (rewrite_header (store_checksum header c) (header @ data)) file_size = Inr c
    \<and> read_le_u16 (rewrite_header (store_checksum header c) (header @ data)) AIF_CHECKSUM_OFFSET = c
    \<and> rewrite_header (store_checksum header c) (header @ data)
        = (header @ data)[4 := ucast (c AND 0xFF), 5 := ucast (drop_bit 8 c AND 0xFF)]"
proof -
  let ?lo = "ucast (c AND 0xFF) :: u8" and ?hi = "ucast (drop_bit 8 c AND 0xFF) :: u8"
  let ?f' = "rewrite_header (store_checksum header c) (header @ data)"
  have f': "?f' = (header @ data)[4 := ?lo, 5 := ?hi]"
    using hdr
    by (simp add: rewrite_header_def store_checksum_def AIF_HEADER_SIZE_def AIF_CHECKSUM_OFFSET_def
        list_update_append)
  have "compute_checksum_loop ?f' file_size 0 0 0 = compute_checksum_loop (header @ data) file_size 0 0 0"
    unfolding f' by (rule compute_checksum_loop_cong) (simp_all add: nth_list_update)
  then have 1: "compute_checksum ?f' file_size = Inr c"
    using c by (simp add: compute_checksum_def)
  have "read_le_u16 ?f' AIF_CHECKSUM_OFFSET = ucast ?lo OR push_bit 8 (ucast ?hi)"
    unfolding f' using hdr
    by (simp add: read_le_u16_def AIF_CHECKSUM_OFFSET_def AIF_HEADER_SIZE_def nth_list_update)
  then have 2: "read_le_u16 ?f' AIF_CHECKSUM_OFFSET = c"
    by (simp only: read_le_u16_stored)
  from 1 2 f' show ?thesis by simp
qed

theorem checksum_fixed_point_witness:
  "length [0x41, 0x49, 0x46, 0, 9, 9, 2, 0, 1, 0, 0, 0, 1, 0, 0, 0, 20, 0, 0, 0 :: u8] = AIF_HEADER_SIZE
   \<and> compute_checksum ([0x41, 0x49, 0x46, 0, 9, 9, 2, 0, 1, 0, 0, 0, 1, 0, 0, 0, 20, 0, 0, 0] @ [42]) 21 = Inr 0xFD12
   \<and> compute_checksum
         (rewrite_header (store_checksum [0x41, 0x49, 0x46, 0, 9, 9, 2, 0, 1, 0, 0, 0, 1, 0, 0, 0, 20, 0, 0, 0] 0xFD12)
            ([0x41, 0x49, 0x46, 0, 9, 9, 2, 0, 1, 0, 0, 0, 1, 0, 0, 0, 20, 0, 0, 0] @ [42])) 21 = Inr 0xFD12"
proof -
  let ?h = "[0x41, 0x49, 0x46, 0, 9, 9, 2, 0, 1, 0, 0, 0, 1, 0, 0, 0, 20, 0, 0, 0] :: u8 list"
  have h1: "length ?h = AIF_HEADER_SIZE" by (simp add: AIF_HEADER_SIZE_def)
  have h2: "compute_checksum (?h @ [42]) 21 = Inr 0xFD12" by code_simp
  from checksum_fixed_point [OF h1 h2] h1 h2 show ?thesis by blast
qed

section \<open>Properties of the row encoder\<close>

subsection \<open>Byte copies and block sizes\<close>

lemma length_copy_bytes [simp]: "length (copy_bytes buf off n) = n"
  by (simp add: copy_bytes_def)

lemma copy_bytes_0 [simp]: "copy_bytes buf off 0 = []"
  by (simp add: copy_bytes_def)

lemma copy_bytes_add:
  "copy_bytes buf off (m + n) = copy_bytes buf off m @ copy_bytes buf (off + m) n"
  by (rule nth_equalityI) (auto simp: copy_bytes_def nth_append add.assoc)

lemma concat_copy_bytes:
  "concat (map (\<lambda>p. copy_bytes buf (base + p * bpp) bpp) [0..<c]) = copy_bytes buf base (c * bpp)"
proof (induction c)
  case 0
  show ?case by simp
next
  case (Suc c)
  have "copy_bytes buf base (Suc c * bpp) = copy_bytes buf base (c * bpp) @ copy_bytes buf (base + c * bpp) bpp"
    using copy_bytes_add [of buf base "c * bpp" bpp] by (simp add: add.commute)
  with Suc show ?case by simp
qed

lemma copy_bytes_nth_eq:
  "(\<And>k. k < n \<Longrightarrow> a ! (i + k) = b ! (j + k)) \<Longrightarrow> copy_bytes a i n = copy_bytes b j n"
  by (simp add: copy_bytes_def)

lemma copy_bytes_whole: "copy_bytes buf 0 (length buf) = buf"
  by (simp add: copy_bytes_def map_nth)

lemma pixels_equal_iff:
  "pixels_equal buf i j bpp \<longleftrightarrow> copy_bytes buf i bpp = copy_bytes buf j bpp"
  by (auto simp: pixels_equal_def copy_bytes_def list_all_iff)

lemma chunk_cases:
  fixes n :: nat
  assumes "0 < n"
  defines "chunk \<equiv> (if n > 255 then 255 else of_nat n) :: u8"
  shows "1 \<le> unat chunk" and "unat chunk \<le> 255" and "unat chunk \<le> n" and "chunk \<noteq> 0"
    and "unat chunk = (if n > 255 then 255 else n)"
proof -
  show u: "unat chunk = (if n > 255 then 255 else n)"
    unfolding chunk_def by (rule unat_chunk)
  from u assms(1) show "1 \<le> unat chunk" "unat chunk \<le> 255" "unat chunk \<le> n"
    by (simp_all split: if_splits)
  from u assms(1) have "unat chunk \<noteq> 0" by (simp split: if_splits)
  then show "chunk \<noteq> 0" by (auto simp: unat_eq_0)
qed

lemma ceil_div_step:
  fixes n c :: nat
  assumes "0 < n" and "c = (if n > 255 then 255 else n)"
  shows "(n + 254) div 255 = Suc ((n - c + 254) div 255)"
proof (cases "n > 255")
  case True
  with assms have "n - c + 254 + 255 = n + 254" by simp
  then have "(n + 254) div 255 = (n - c + 254 + 255) div 255" by simp
  also have "\<dots> = Suc ((n - c + 254) div 255)" by simp
  finally show ?thesis .
next
  case False
  with assms show ?thesis by simp
qed

lemma length_write_repeat_blocks_loop:
  "length (write_repeat_blocks_loop buf off remaining bpp out) =
     length out + ((remaining + 254) div 255) * (1 + bpp)"
proof (induction buf off remaining bpp out rule: write_repeat_blocks_loop.induct)
  case (1 buf off remaining bpp out)
  show ?case
  proof (cases "remaining > 0")
    case False
    then show ?thesis by (subst write_repeat_blocks_loop.simps) simp
  next
    case True
    define chunk :: u8 where "chunk = (if remaining > 255 then 255 else of_nat remaining)"
    have u: "unat chunk = (if remaining > 255 then 255 else remaining)"
      unfolding chunk_def by (rule unat_chunk)
    have step: "write_repeat_blocks_loop buf off remaining bpp out =
        write_repeat_blocks_loop buf off (remaining - unat chunk) bpp
          ((out @ [chunk]) @ copy_bytes buf off bpp)"
      using True by (subst write_repeat_blocks_loop.simps) (simp add: Let_def chunk_def)
    have IH: "length (write_repeat_blocks_loop buf off (remaining - unat chunk) bpp
          ((out @ [chunk]) @ copy_bytes buf off bpp)) =
        length ((out @ [chunk]) @ copy_bytes buf off bpp)
          + ((remaining - unat chunk + 254) div 255) * (1 + bpp)"
      using "1.IH" [OF True refl refl refl] by (simp only: chunk_def)
    show ?thesis
      unfolding step IH using ceil_div_step [OF True u] by simp
  qed
qed

lemma split_mult: "a + b = c \<Longrightarrow> a * k + b * k = c * (k :: nat)"
  by (simp add: add_mult_distrib [symmetric])

lemma length_write_literal_blocks_loop:
  "emitted \<le> literal_pixels \<Longrightarrow>
   length (write_literal_blocks_loop row start literal_pixels bpp emitted out) =
     length out + ((literal_pixels - emitted + 254) div 255) * 2 + (literal_pixels - emitted) * bpp"
proof (induction row start literal_pixels bpp emitted out rule: write_literal_blocks_loop.induct)
  case (1 row start literal_pixels bpp emitted out)
  show ?case
  proof (cases "emitted < literal_pixels")
    case False
    then show ?thesis by (subst write_literal_blocks_loop.simps) simp
  next
    case True
    define n where "n = literal_pixels - emitted"
    define chunk :: u8 where "chunk = (if n > 255 then 255 else of_nat n)"
    define payload where "payload =
      concat (map (\<lambda>p. copy_bytes row ((unat start + emitted) * bpp + p * bpp) bpp) [0..<unat chunk])"
    from True have n: "0 < n" by (simp add: n_def)
    have u: "unat chunk = (if n > 255 then 255 else n)"
      unfolding chunk_def by (rule unat_chunk)
    from u n have cn: "unat chunk \<le> n" by (simp split: if_splits)
    have lp: "length payload = unat chunk * bpp"
      by (simp add: payload_def concat_copy_bytes)
    have step: "write_literal_blocks_loop row start literal_pixels bpp emitted out =
        write_literal_blocks_loop row start literal_pixels bpp (emitted + unat chunk)
          (((out @ [0]) @ [chunk]) @ payload)"
      using True
      by (subst write_literal_blocks_loop.simps) (simp add: Let_def chunk_def n_def payload_def)
    from cn True have le: "emitted + unat chunk \<le> literal_pixels" by (simp add: n_def)
    have IH: "length (write_literal_blocks_loop row start literal_pixels bpp (emitted + unat chunk)
          (((out @ [0]) @ [chunk]) @ payload)) =
        length (((out @ [0]) @ [chunk]) @ payload)
          + ((literal_pixels - (emitted + unat chunk) + 254) div 255) * 2
          + (literal_pixels - (emitted + unat chunk)) * bpp"
      using "1.IH" [OF True refl refl refl refl refl] le
      by (simp only: chunk_def n_def payload_def)
    have rest: "literal_pixels - (emitted + unat chunk) = n - unat chunk"
      by (simp add: n_def)
    have split: "n * bpp = unat chunk * bpp + (n - unat chunk) * bpp"
      using cn by (intro split_mult [symmetric]) simp
    show ?thesis
      unfolding step IH rest n_def [symmetric]
      using ceil_div_step [OF n u] lp split by simp
  qed
qed

lemma ceil_div_le: "(n + 254) div 255 \<le> (n :: nat)"
  by (cases "n = 0") simp_all

lemma compress_row_loop_done:
  "\<not> col < width \<Longrightarrow> compress_row_loop row width bpp col out = out"
  by (subst compress_row_loop.simps) simp

lemma compress_row_loop_repeat:
  "col < width \<Longrightarrow> 2 \<le> measure_run row width bpp col \<Longrightarrow>
   compress_row_loop row width bpp col out =
     compress_row_loop row width bpp (col + of_nat (measure_run row width bpp col))
       (write_repeat_blocks row (unat col * bpp) (measure_run row width bpp col) bpp out)"
  by (subst compress_row_loop.simps) (simp add: Let_def)

lemma compress_row_loop_literal:
  "col < width \<Longrightarrow> \<not> 2 \<le> measure_run row width bpp col \<Longrightarrow>
   compress_row_loop row width bpp col out =
     compress_row_loop row width bpp (gather_literals row width bpp (col + 1))
       (write_literal_blocks row col
          (unat (gather_literals row width bpp (col + 1)) - unat col) bpp out)"
  by (subst compress_row_loop.simps) (simp add: Let_def)

lemma gather_after:
  assumes "col < width"
  shows "unat col < unat (gather_literals row width bpp (col + 1))"
    and "unat (gather_literals row width bpp (col + 1)) \<le> unat width"
proof -
  have suc: "unat (col + 1) = Suc (unat col)" using assms by (rule u32_less_Suc)
  from assms have "unat col < unat width" by (simp add: word_less_nat_alt)
  then have "unat (col + 1) \<le> unat width" by (simp add: suc)
  from gather_literals_bounds [OF this, of row bpp] suc
  show "unat col < unat (gather_literals row width bpp (col + 1))"
    and "unat (gather_literals row width bpp (col + 1)) \<le> unat width" by simp_all
qed

lemma length_compress_row_loop:
  "unat col \<le> unat width \<Longrightarrow>
   length (compress_row_loop row width bpp col out)
     \<le> length out + (unat width - unat col) * (bpp + 2)"
proof (induction row width bpp col out rule: compress_row_loop.induct)
  case (1 row width bpp col out)
  show ?case
  proof (cases "col < width")
    case False
    then show ?thesis by (simp add: compress_row_loop_done)
  next
    case lt: True
    define run where "run = measure_run row width bpp col"
    show ?thesis
    proof (cases "2 \<le> run")
      case True
      from measure_run_bounds(2) [OF lt, of row bpp]
      have le: "unat col + run \<le> unat width" by (simp add: run_def)
      then have ucol: "unat (col + of_nat run) = unat col + run" by (rule unat_add_of_nat)
      define out' where "out' = write_repeat_blocks row (unat col * bpp) run bpp out"
      have lo: "length out' \<le> length out + run * (bpp + 2)"
      proof -
        have "length out' = length out + ((run + 254) div 255) * (1 + bpp)"
          by (simp add: out'_def write_repeat_blocks_def length_write_repeat_blocks_loop)
        moreover have "((run + 254) div 255) * (1 + bpp) \<le> run * (bpp + 2)"
          by (rule mult_le_mono) (simp_all add: ceil_div_le)
        ultimately show ?thesis by simp
      qed
      have IH: "length (compress_row_loop row width bpp (col + of_nat run) out')
          \<le> length out' + (unat width - unat (col + of_nat run)) * (bpp + 2)"
        using "1.IH"(1) [OF lt refl, folded run_def, OF True] le ucol
        by (simp add: out'_def)
      have "run * (bpp + 2) + (unat width - (unat col + run)) * (bpp + 2)
          = (unat width - unat col) * (bpp + 2)"
        using le by (intro split_mult) simp
      with IH lo ucol have "length (compress_row_loop row width bpp (col + of_nat run) out')
          \<le> length out + (unat width - unat col) * (bpp + 2)"
        by simp
      then show ?thesis
        using compress_row_loop_repeat [OF lt, of row bpp out] True
        by (simp add: run_def out'_def)
    next
      case False
      define col' where "col' = gather_literals row width bpp (col + 1)"
      define n where "n = unat col' - unat col"
      from gather_after [OF lt, of row bpp]
      have c1: "unat col < unat col'" and c2: "unat col' \<le> unat width"
        by (simp_all add: col'_def)
      define out' where "out' = write_literal_blocks row col n bpp out"
      have lo: "length out' \<le> length out + n * (bpp + 2)"
      proof -
        have "length out' = length out + ((n + 254) div 255) * 2 + n * bpp"
          using length_write_literal_blocks_loop [of 0 n row col bpp out]
          by (simp add: out'_def write_literal_blocks_def)
        moreover have "((n + 254) div 255) * 2 \<le> n * 2"
          by (rule mult_le_mono) (simp_all add: ceil_div_le)
        ultimately show ?thesis by (simp add: add_mult_distrib2)
      qed
      have IH: "length (compress_row_loop row width bpp col' out')
          \<le> length out' + (unat width - unat col') * (bpp + 2)"
        using "1.IH"(2) [OF lt refl, folded run_def, OF False refl refl refl] c2
        by (simp add: out'_def col'_def n_def)
      have "n * (bpp + 2) + (unat width - unat col') * (bpp + 2)
          = (unat width - unat col) * (bpp + 2)"
        using c1 c2 by (intro split_mult) (simp add: n_def)
      with IH lo have "length (compress_row_loop row width bpp col' out')
          \<le> length out + (unat width - unat col) * (bpp + 2)"
        by simp
      then show ?thesis
        using compress_row_loop_literal [OF lt, of row bpp out] False
        by (simp add: run_def out'_def col'_def n_def)
    qed
  qed
qed

text \<open>
  Claim C8: the number of bytes \<open>compress_row\<close> writes to its output buffer (its return
  value, the final \<open>out_pos\<close>) is at most \<open>width * (bpp + 2)\<close>, the size
  \<open>max_row\<close> of the buffer that \<open>aif_write_compressed_rows\<close> allocates.  The bound
  holds for every row, width and \<open>bpp\<close>, in particular for width at least 1 and
  \<open>bpp\<close> 1 or 3.
\<close>

theorem compress_row_worst_case:
  "length (compress_row row width bpp) \<le> unat width * (bpp + 2)"
  using length_compress_row_loop [of 0 width row bpp "[]"]
  by (simp add: compress_row_def)

section \<open>Decoding what the encoder wrote\<close>

subsection \<open>One decoder iteration on a well-formed block\<close>

lemma prefix_nth: "prefix xs ys \<Longrightarrow> i < length xs \<Longrightarrow> ys ! i = xs ! i"
  by (auto simp: prefix_def nth_append)

lemma prefix_copy_bytes:
  "prefix xs ys \<Longrightarrow> off + n \<le> length xs \<Longrightarrow> copy_bytes ys off n = copy_bytes xs off n"
  by (auto simp: copy_bytes_def prefix_def nth_append)

lemma copy_bytes_append_right: "copy_bytes (a @ b) (length a) (length b) = b"
  by (rule nth_equalityI) (simp_all add: copy_bytes_def)

lemma length_concat_replicate [simp]: "length (concat (replicate n xs)) = n * length xs"
  by (induction n) simp_all

lemma decompress_row_loop_exit:
  "\<not> (length out < row_bytes \<and> cp < unat row_len) \<Longrightarrow>
   decompress_row_loop cdata row_len row_bytes bpp cp out = Some (cp, out)"
  by (subst decompress_row_loop.simps) auto

lemma decompress_row_loop_step:
  "length out < row_bytes \<Longrightarrow> cp < unat row_len \<Longrightarrow>
   decompress_block cdata row_len row_bytes bpp cp out = Some (cp', out') \<Longrightarrow>
   decompress_row_loop cdata row_len row_bytes bpp cp out =
     decompress_row_loop cdata row_len row_bytes bpp cp' out'"
  by (subst decompress_row_loop.simps) simp

lemma decompress_row_loop_fail:
  "length out < row_bytes \<Longrightarrow> cp < unat row_len \<Longrightarrow>
   decompress_block cdata row_len row_bytes bpp cp out = None \<Longrightarrow>
   decompress_row_loop cdata row_len row_bytes bpp cp out = None"
  by (subst decompress_row_loop.simps) simp

lemma decompress_block_repeat:
  assumes "cdata ! cp = chunk" and "chunk \<noteq> 0"
    and "cp + 1 + bpp \<le> unat row_len"
    and "length out + unat chunk * bpp \<le> row_bytes"
  shows "decompress_block cdata row_len row_bytes bpp cp out =
    Some (cp + 1 + bpp, out @ concat (replicate (unat chunk) (copy_bytes cdata (cp + 1) bpp)))"
  using assms by (simp add: decompress_block_def decompress_repeat_block_def Let_def)

lemma decompress_block_literal:
  assumes "cdata ! cp = 0" and "cdata ! (cp + 1) = chunk" and "chunk \<noteq> 0"
    and "cp + 2 + unat chunk * bpp \<le> unat row_len"
    and "length out + unat chunk * bpp \<le> row_bytes"
  shows "decompress_block cdata row_len row_bytes bpp cp out =
    Some (cp + 2 + unat chunk * bpp, out @ copy_bytes cdata (cp + 2) (unat chunk * bpp))"
proof -
  have "concat (map (\<lambda>p. copy_bytes cdata (cp + 1 + 1 + p * bpp) bpp) [0..<unat chunk])
      = copy_bytes cdata (cp + 2) (unat chunk * bpp)"
    using concat_copy_bytes [of cdata "cp + 2" bpp "unat chunk"] by (simp add: add.assoc)
  then show ?thesis
    using assms
    by (simp add: decompress_block_def decompress_literal_block_def Let_def add.assoc)
qed

subsection \<open>The encoder only appends\<close>

lemma prefix_write_repeat_blocks_loop:
  "prefix out (write_repeat_blocks_loop buf off remaining bpp out)"
proof (induction buf off remaining bpp out rule: write_repeat_blocks_loop.induct)
  case (1 buf off remaining bpp out)
  show ?case
  proof (cases "remaining > 0")
    case False
    then show ?thesis by (subst write_repeat_blocks_loop.simps) simp
  next
    case True
    define chunk :: u8 where "chunk = (if remaining > 255 then 255 else of_nat remaining)"
    have step: "write_repeat_blocks_loop buf off remaining bpp out =
        write_repeat_blocks_loop buf off (remaining - unat chunk) bpp
          ((out @ [chunk]) @ copy_bytes buf off bpp)"
      using True by (subst write_repeat_blocks_loop.simps) (simp add: Let_def chunk_def)
    have "prefix ((out @ [chunk]) @ copy_bytes buf off bpp)
        (write_repeat_blocks_loop buf off (remaining - unat chunk) bpp
          ((out @ [chunk]) @ copy_bytes buf off bpp))"
      using "1.IH" [OF True refl refl refl] by (simp only: chunk_def)
    then show ?thesis
      unfolding step by (rule append_prefixD [OF append_prefixD])
  qed
qed

lemma prefix_write_literal_blocks_loop:
  "prefix out (write_literal_blocks_loop row start literal_pixels bpp emitted out)"
proof (induction row start literal_pixels bpp emitted out rule: write_literal_blocks_loop.induct)
  case (1 row start literal_pixels bpp emitted out)
  show ?case
  proof (cases "emitted < literal_pixels")
    case False
    then show ?thesis by (subst write_literal_blocks_loop.simps) simp
  next
    case True
    define chunk :: u8 where "chunk = (if literal_pixels - emitted > 255 then 255
                                        else of_nat (literal_pixels - emitted))"
    define payload where "payload =
      concat (map (\<lambda>p. copy_bytes row ((unat start + emitted) * bpp + p * bpp) bpp) [0..<unat chunk])"
    have step: "write_literal_blocks_loop row start literal_pixels bpp emitted out =
        write_literal_blocks_loop row start literal_pixels bpp (emitted + unat chunk)
          (((out @ [0]) @ [chunk]) @ payload)"
      using True
      by (subst write_literal_blocks_loop.simps) (simp add: Let_def chunk_def payload_def)
    have "prefix (((out @ [0]) @ [chunk]) @ payload)
        (write_literal_blocks_loop row start literal_pixels bpp (emitted + unat chunk)
          (((out @ [0]) @ [chunk]) @ payload))"
      using "1.IH" [OF True refl refl refl refl refl] by (simp only: chunk_def payload_def)
    then show ?thesis
      unfolding step by (rule append_prefixD [OF append_prefixD [OF append_prefixD]])
  qed
qed

subsection \<open>Decoding a sequence of repeat blocks\<close>

lemma decode_write_repeat_blocks_loop:
  assumes "prefix (write_repeat_blocks_loop buf off remaining bpp out) cdata"
    and "length (write_repeat_blocks_loop buf off remaining bpp out) \<le> unat row_len"
    and "length dec + remaining * bpp \<le> row_bytes"
    and "0 < bpp"
  shows "decompress_row_loop cdata row_len row_bytes bpp (length out) dec =
         decompress_row_loop cdata row_len row_bytes bpp
           (length (write_repeat_blocks_loop buf off remaining bpp out))
           (dec @ concat (replicate remaining (copy_bytes buf off bpp)))"
  using assms
proof (induction buf off remaining bpp out arbitrary: dec rule: write_repeat_blocks_loop.induct)
  case (1 buf off remaining bpp out)
  show ?case
  proof (cases "remaining > 0")
    case False
    then show ?thesis by (subst write_repeat_blocks_loop.simps) simp
  next
    case True
    define chunk :: u8 where "chunk = (if remaining > 255 then 255 else of_nat remaining)"
    define px where "px = copy_bytes buf off bpp"
    define out2 where "out2 = (out @ [chunk]) @ px"
    define res where "res = write_repeat_blocks_loop buf off (remaining - unat chunk) bpp out2"
    define dec2 where "dec2 = dec @ concat (replicate (unat chunk) px)"
    note ch = chunk_cases [OF True, folded chunk_def]
    have step: "write_repeat_blocks_loop buf off remaining bpp out = res"
      using True
      by (subst write_repeat_blocks_loop.simps) (simp add: Let_def chunk_def res_def out2_def px_def)
    from "1.prems"(1,2) have pre: "prefix res cdata" and len: "length res \<le> unat row_len"
      by (simp_all only: step)
    have p2: "prefix out2 res"
      unfolding res_def by (rule prefix_write_repeat_blocks_loop)
    then have l2: "length out2 \<le> length res" by (rule prefix_length_le)
    from p2 pre have p2c: "prefix out2 cdata" by (rule prefix_order.trans)
    have lo2: "length out2 = length out + 1 + bpp" by (simp add: out2_def px_def)
    have tag: "cdata ! length out = chunk"
      using prefix_nth [OF p2c, of "length out"] by (simp add: out2_def nth_append)
    have pix: "copy_bytes cdata (length out + 1) bpp = px"
    proof -
      have "copy_bytes cdata (length out + 1) bpp = copy_bytes out2 (length out + 1) bpp"
        by (rule prefix_copy_bytes [OF p2c]) (simp add: lo2)
      also have "\<dots> = px"
        using copy_bytes_append_right [of "out @ [chunk]" px] by (simp add: out2_def px_def)
      finally show ?thesis .
    qed
    from \<open>0 < bpp\<close> ch(1) have pos: "0 < unat chunk * bpp" by simp
    have cb: "unat chunk * bpp \<le> remaining * bpp" using ch(3) by (rule mult_le_mono1)
    from "1.prems"(3) cb pos
    have room: "length dec + unat chunk * bpp \<le> row_bytes" and lt: "length dec < row_bytes"
      by linarith+
    from l2 len lo2 have inlen: "length out + 1 + bpp \<le> unat row_len" and cplt: "length out < unat row_len"
      by simp_all
    have blk: "decompress_block cdata row_len row_bytes bpp (length out) dec =
        Some (length out2, dec2)"
      using decompress_block_repeat [OF tag ch(4) inlen room] by (simp only: pix lo2 dec2_def)
    have first: "decompress_row_loop cdata row_len row_bytes bpp (length out) dec =
        decompress_row_loop cdata row_len row_bytes bpp (length out2) dec2"
      by (rule decompress_row_loop_step [OF lt cplt blk])
    have split: "remaining * bpp = unat chunk * bpp + (remaining - unat chunk) * bpp"
      using ch(3) by (intro split_mult [symmetric]) simp
    have ldec2: "length dec2 + (remaining - unat chunk) * bpp \<le> row_bytes"
      using "1.prems"(3) split by (simp add: dec2_def px_def)
    have IH: "decompress_row_loop cdata row_len row_bytes bpp (length out2) dec2 =
        decompress_row_loop cdata row_len row_bytes bpp (length res)
          (dec2 @ concat (replicate (remaining - unat chunk) px))"
      using "1.IH" [OF True refl refl refl, folded chunk_def px_def, folded out2_def, folded res_def,
          OF pre len ldec2 \<open>0 < bpp\<close>] .
    have "replicate remaining px = replicate (unat chunk) px @ replicate (remaining - unat chunk) px"
      using ch(3) by (simp add: replicate_add [symmetric])
    then have cat: "dec2 @ concat (replicate (remaining - unat chunk) px)
        = dec @ concat (replicate remaining px)"
      by (simp add: dec2_def)
    have "decompress_row_loop cdata row_len row_bytes bpp (length out) dec =
        decompress_row_loop cdata row_len row_bytes bpp (length res)
          (dec @ concat (replicate remaining px))"
      by (simp only: first IH cat)
    then show ?thesis
      by (simp only: step px_def)
  qed
qed

subsection \<open>Decoding a sequence of literal blocks\<close>

lemma decode_write_literal_blocks_loop:
  assumes "prefix (write_literal_blocks_loop row start literal_pixels bpp emitted out) cdata"
    and "length (write_literal_blocks_loop row start literal_pixels bpp emitted out) \<le> unat row_len"
    and "emitted \<le> literal_pixels"
    and "length dec + (literal_pixels - emitted) * bpp \<le> row_bytes"
    and "0 < bpp"
  shows "decompress_row_loop cdata row_len row_bytes bpp (length out) dec =
         decompress_row_loop cdata row_len row_bytes bpp
           (length (write_literal_blocks_loop row start literal_pixels bpp emitted out))
           (dec @ copy_bytes row ((unat start + emitted) * bpp) ((literal_pixels - emitted) * bpp))"
  using assms
proof (induction row start literal_pixels bpp emitted out arbitrary: dec
    rule: write_literal_blocks_loop.induct)
  case (1 row start literal_pixels bpp emitted out)
  show ?case
  proof (cases "emitted < literal_pixels")
    case False
    then show ?thesis by (subst write_literal_blocks_loop.simps) simp
  next
    case True
    define n where "n = literal_pixels - emitted"
    define chunk :: u8 where "chunk = (if n > 255 then 255 else of_nat n)"
    define base where "base = (unat start + emitted) * bpp"
    define payload where "payload = concat (map (\<lambda>p. copy_bytes row (base + p * bpp) bpp) [0..<unat chunk])"
    define out3 where "out3 = ((out @ [0]) @ [chunk]) @ payload"
    define res where "res = write_literal_blocks_loop row start literal_pixels bpp (emitted + unat chunk) out3"
    define dec2 where "dec2 = dec @ payload"
    from True have n: "0 < n" by (simp add: n_def)
    note ch = chunk_cases [OF n, folded chunk_def]
    have pay: "payload = copy_bytes row base (unat chunk * bpp)"
      by (simp add: payload_def concat_copy_bytes)
    have lpay: "length payload = unat chunk * bpp" by (simp add: pay)
    have step: "write_literal_blocks_loop row start literal_pixels bpp emitted out = res"
      using True
      by (subst write_literal_blocks_loop.simps)
        (simp add: Let_def chunk_def n_def res_def out3_def payload_def base_def)
    from "1.prems"(1,2) have pre: "prefix res cdata" and len: "length res \<le> unat row_len"
      by (simp_all only: step)
    have p3: "prefix out3 res"
      unfolding res_def by (rule prefix_write_literal_blocks_loop)
    then have l3: "length out3 \<le> length res" by (rule prefix_length_le)
    from p3 pre have p3c: "prefix out3 cdata" by (rule prefix_order.trans)
    have lo3: "length out3 = length out + 2 + unat chunk * bpp" by (simp add: out3_def lpay)
    have tag: "cdata ! length out = 0"
      using prefix_nth [OF p3c, of "length out"] by (simp add: out3_def nth_append)
    have cnt: "cdata ! (length out + 1) = chunk"
      using prefix_nth [OF p3c, of "length out + 1"] by (simp add: out3_def nth_append)
    have pix: "copy_bytes cdata (length out + 2) (unat chunk * bpp) = payload"
    proof -
      have "copy_bytes cdata (length out + 2) (unat chunk * bpp)
          = copy_bytes out3 (length out + 2) (unat chunk * bpp)"
        by (rule prefix_copy_bytes [OF p3c]) (simp add: lo3)
      also have "\<dots> = payload"
        using copy_bytes_append_right [of "(out @ [0]) @ [chunk]" payload]
        by (simp add: out3_def lpay)
      finally show ?thesis .
    qed
    from \<open>0 < bpp\<close> ch(1) have pos: "0 < unat chunk * bpp" by simp
    have cb: "unat chunk * bpp \<le> n * bpp" using ch(3) by (rule mult_le_mono1)
    from "1.prems"(4) cb pos
    have room: "length dec + unat chunk * bpp \<le> row_bytes" and lt: "length dec < row_bytes"
      unfolding n_def by linarith+
    from l3 len lo3 have inlen: "length out + 2 + unat chunk * bpp \<le> unat row_len"
      and cplt: "length out < unat row_len"
      by linarith+
    have blk: "decompress_block cdata row_len row_bytes bpp (length out) dec =
        Some (length out3, dec2)"
      using decompress_block_literal [OF tag cnt ch(4) inlen room] by (simp only: pix lo3 dec2_def)
    have first: "decompress_row_loop cdata row_len row_bytes bpp (length out) dec =
        decompress_row_loop cdata row_len row_bytes bpp (length out3) dec2"
      by (rule decompress_row_loop_step [OF lt cplt blk])
    from ch(3) True have le: "emitted + unat chunk \<le> literal_pixels" by (simp add: n_def)
    have rest: "literal_pixels - (emitted + unat chunk) = n - unat chunk" by (simp add: n_def)
    have split: "n * bpp = unat chunk * bpp + (n - unat chunk) * bpp"
      using ch(3) by (intro split_mult [symmetric]) simp
    have ldec2: "length dec2 + (literal_pixels - (emitted + unat chunk)) * bpp \<le> row_bytes"
      using "1.prems"(4) split unfolding rest n_def [symmetric] by (simp add: dec2_def lpay)
    have IH: "decompress_row_loop cdata row_len row_bytes bpp (length out3) dec2 =
        decompress_row_loop cdata row_len row_bytes bpp (length res)
          (dec2 @ copy_bytes row ((unat start + (emitted + unat chunk)) * bpp)
                    ((literal_pixels - (emitted + unat chunk)) * bpp))"
      using "1.IH" [OF True refl refl refl refl refl, folded n_def, folded chunk_def,
          folded base_def, folded payload_def, folded out3_def, folded res_def,
          OF pre len le ldec2 \<open>0 < bpp\<close>] .
    have nb: "(unat start + (emitted + unat chunk)) * bpp = base + unat chunk * bpp"
      by (simp add: base_def add_mult_distrib)
    have "copy_bytes row base (n * bpp)
        = payload @ copy_bytes row (base + unat chunk * bpp) ((n - unat chunk) * bpp)"
      unfolding split pay by (rule copy_bytes_add)
    then have cat: "dec2 @ copy_bytes row ((unat start + (emitted + unat chunk)) * bpp)
                    ((literal_pixels - (emitted + unat chunk)) * bpp)
        = dec @ copy_bytes row base (n * bpp)"
      unfolding nb rest by (simp add: dec2_def)
    have "decompress_row_loop cdata row_len row_bytes bpp (length out) dec =
        decompress_row_loop cdata row_len row_bytes bpp (length res)
          (dec @ copy_bytes row base (n * bpp))"
      by (simp only: first IH cat)
    then show ?thesis
      by (simp only: step base_def n_def)
  qed
qed

subsection \<open>Runs found by \<open>measure_run\<close> consist of equal pixels\<close>

lemma measure_run_loop_equal:
  "unat start + run \<le> unat width \<Longrightarrow>
   (\<And>j. j < run \<Longrightarrow>
      copy_bytes row ((unat start + j) * bpp) bpp = copy_bytes row (unat start * bpp) bpp) \<Longrightarrow>
   j < measure_run_loop row width bpp start run \<Longrightarrow>
   copy_bytes row ((unat start + j) * bpp) bpp = copy_bytes row (unat start * bpp) bpp"
proof (induction row width bpp start run rule: measure_run_loop.induct)
  case (1 row width bpp start run)
  note le = \<open>unat start + run \<le> unat width\<close>
  have eq: "unat (start + of_nat run) = unat start + run"
    using le by (rule unat_add_of_nat)
  show ?case
  proof (cases "start + of_nat run < width \<and>
      pixels_equal row (unat start * bpp) ((unat start + run) * bpp) bpp")
    case False
    then have "measure_run_loop row width bpp start run = run"
      by (subst measure_run_loop.simps) auto
    with "1.prems"(3) have "j < run" by simp
    then show ?thesis by (rule "1.prems"(2))
  next
    case True
    then have lt: "start + of_nat run < width"
      and pe: "pixels_equal row (unat start * bpp) ((unat start + run) * bpp) bpp" by simp_all
    from lt have "unat start + run < unat width" by (simp add: word_less_nat_alt eq)
    then have le': "unat start + (run + 1) \<le> unat width" by simp
    have unf: "measure_run_loop row width bpp start run = measure_run_loop row width bpp start (run + 1)"
      using lt pe by (subst measure_run_loop.simps) simp
    have all: "copy_bytes row ((unat start + i) * bpp) bpp = copy_bytes row (unat start * bpp) bpp"
      if "i < run + 1" for i
    proof (cases "i < run")
      case True
      then show ?thesis by (rule "1.prems"(2))
    next
      case False
      with that have "i = run" by simp
      with pe show ?thesis by (simp add: pixels_equal_iff)
    qed
    from "1.prems"(3) have j: "j < measure_run_loop row width bpp start (run + 1)"
      by (simp only: unf)
    have npe: "\<not> \<not> pixels_equal row (unat start * bpp) ((unat start + run) * bpp) bpp"
      using pe by simp
    show ?thesis
      by (rule "1.IH" [OF lt npe le' all j])
  qed
qed

lemma measure_run_equal:
  assumes "col < width" and "j < measure_run row width bpp col"
  shows "copy_bytes row ((unat col + j) * bpp) bpp = copy_bytes row (unat col * bpp) bpp"
proof -
  from assms(1) have le: "unat col + 1 \<le> unat width" by (simp add: word_less_nat_alt)
  have one: "copy_bytes row ((unat col + i) * bpp) bpp = copy_bytes row (unat col * bpp) bpp"
    if "i < 1" for i
    using that by simp
  from assms(2) have "j < measure_run_loop row width bpp col 1" by (simp only: measure_run_def)
  with le one show ?thesis by (rule measure_run_loop_equal)
qed

lemma run_is_replicate:
  assumes "\<And>j. j < n \<Longrightarrow> copy_bytes row (base + j * bpp) bpp = px"
  shows "concat (replicate n px) = copy_bytes row base (n * bpp)"
proof -
  have "map (\<lambda>p. copy_bytes row (base + p * bpp) bpp) [0..<n] = map (\<lambda>p. px) [0..<n]"
    using assms by (intro map_cong) simp_all
  also have "\<dots> = replicate n px" by (simp add: map_replicate_const)
  finally show ?thesis
    using concat_copy_bytes [of row base bpp n] by simp
qed

lemma measure_run_replicate:
  assumes "col < width"
  shows "concat (replicate (measure_run row width bpp col) (copy_bytes row (unat col * bpp) bpp))
       = copy_bytes row (unat col * bpp) (measure_run row width bpp col * bpp)"
proof (rule run_is_replicate)
  fix j assume "j < measure_run row width bpp col"
  from measure_run_equal [OF assms this]
  show "copy_bytes row (unat col * bpp + j * bpp) bpp = copy_bytes row (unat col * bpp) bpp"
    by (simp add: add_mult_distrib)
qed

subsection \<open>Decoding a compressed row\<close>

lemma prefix_compress_row_loop:
  "prefix out (compress_row_loop row width bpp col out)"
proof (induction row width bpp col out rule: compress_row_loop.induct)
  case (1 row width bpp col out)
  show ?case
  proof (cases "col < width")
    case False
    then show ?thesis by (simp add: compress_row_loop_done)
  next
    case lt: True
    show ?thesis
    proof (cases "2 \<le> measure_run row width bpp col")
      case True
      have "prefix out (write_repeat_blocks row (unat col * bpp) (measure_run row width bpp col) bpp out)"
        unfolding write_repeat_blocks_def by (rule prefix_write_repeat_blocks_loop)
      also have "prefix \<dots> (compress_row_loop row width bpp (col + of_nat (measure_run row width bpp col))
          (write_repeat_blocks row (unat col * bpp) (measure_run row width bpp col) bpp out))"
        by (rule "1.IH"(1) [OF lt refl True])
      finally show ?thesis
        by (simp only: compress_row_loop_repeat [OF lt True])
    next
      case False
      let ?col' = "gather_literals row width bpp (col + 1)"
      have "prefix out (write_literal_blocks row col (unat ?col' - unat col) bpp out)"
        unfolding write_literal_blocks_def by (rule prefix_write_literal_blocks_loop)
      also have "prefix \<dots> (compress_row_loop row width bpp ?col'
          (write_literal_blocks row col (unat ?col' - unat col) bpp out))"
        by (rule "1.IH"(2) [OF lt refl False refl refl refl])
      finally show ?thesis
        by (simp only: compress_row_loop_literal [OF lt False])
    qed
  qed
qed

lemma decode_compress_row_loop:
  assumes "prefix (compress_row_loop row width bpp col out) cdata"
    and "length (compress_row_loop row width bpp col out) \<le> unat row_len"
    and "unat col \<le> unat width"
    and "length dec + (unat width - unat col) * bpp \<le> row_bytes"
    and "0 < bpp"
  shows "decompress_row_loop cdata row_len row_bytes bpp (length out) dec =
         decompress_row_loop cdata row_len row_bytes bpp
           (length (compress_row_loop row width bpp col out))
           (dec @ copy_bytes row (unat col * bpp) ((unat width - unat col) * bpp))"
  using assms
proof (induction row width bpp col out arbitrary: dec rule: compress_row_loop.induct)
  case (1 row width bpp col out)
  show ?case
  proof (cases "col < width")
    case False
    with "1.prems"(3) have "unat width - unat col = 0" by (simp add: word_less_nat_alt)
    with False show ?thesis by (simp add: compress_row_loop_done)
  next
    case lt: True
    define run where "run = measure_run row width bpp col"
    show ?thesis
    proof (cases "2 \<le> run")
      case True
      define out' where "out' = write_repeat_blocks row (unat col * bpp) run bpp out"
      define col' where "col' = col + of_nat run"
      define res where "res = compress_row_loop row width bpp col' out'"
      define dec' where "dec' = dec @ copy_bytes row (unat col * bpp) (run * bpp)"
      have step: "compress_row_loop row width bpp col out = res"
        using compress_row_loop_repeat [OF lt, of row bpp out] True
        by (simp add: run_def res_def out'_def col'_def)
      from "1.prems"(1,2) have pre: "prefix res cdata" and len: "length res \<le> unat row_len"
        by (simp_all only: step)
      from measure_run_bounds(2) [OF lt, of row bpp]
      have le: "unat col + run \<le> unat width" by (simp add: run_def)
      then have ucol: "unat col' = unat col + run"
        unfolding col'_def by (rule unat_add_of_nat)
      have p': "prefix out' res" unfolding res_def by (rule prefix_compress_row_loop)
      then have l': "length out' \<le> length res" by (rule prefix_length_le)
      from p' pre have pc: "prefix out' cdata" by (rule prefix_order.trans)
      from l' len have lc: "length out' \<le> unat row_len" by simp
      have split: "(unat width - unat col) * bpp = run * bpp + (unat width - unat col') * bpp"
        using le ucol by (intro split_mult [symmetric]) simp
      from "1.prems"(4) split have room: "length dec + run * bpp \<le> row_bytes" by linarith
      have first: "decompress_row_loop cdata row_len row_bytes bpp (length out) dec =
          decompress_row_loop cdata row_len row_bytes bpp (length out') dec'"
        using decode_write_repeat_blocks_loop [of row "unat col * bpp" run bpp out cdata row_len dec row_bytes]
          pc lc room \<open>0 < bpp\<close> measure_run_replicate [OF lt, of row bpp]
        by (simp add: out'_def write_repeat_blocks_def dec'_def run_def)
      from ucol le have cle: "unat col' \<le> unat width" by simp
      have room': "length dec' + (unat width - unat col') * bpp \<le> row_bytes"
        using "1.prems"(4) split by (simp add: dec'_def)
      have IH: "decompress_row_loop cdata row_len row_bytes bpp (length out') dec' =
          decompress_row_loop cdata row_len row_bytes bpp (length res)
            (dec' @ copy_bytes row (unat col' * bpp) ((unat width - unat col') * bpp))"
        using "1.IH"(1) [OF lt refl, folded run_def, OF True, folded out'_def col'_def,
            folded res_def, OF pre len cle room' \<open>0 < bpp\<close>] .
      have nb: "unat col' * bpp = unat col * bpp + run * bpp"
        by (simp add: ucol add_mult_distrib)
      have cat: "dec' @ copy_bytes row (unat col' * bpp) ((unat width - unat col') * bpp)
          = dec @ copy_bytes row (unat col * bpp) ((unat width - unat col) * bpp)"
        unfolding split nb dec'_def by (simp add: copy_bytes_add)
      show ?thesis
        by (simp only: step first IH cat)
    next
      case False
      define col' where "col' = gather_literals row width bpp (col + 1)"
      define n where "n = unat col' - unat col"
      define out' where "out' = write_literal_blocks row col n bpp out"
      define res where "res = compress_row_loop row width bpp col' out'"
      define dec' where "dec' = dec @ copy_bytes row (unat col * bpp) (n * bpp)"
      from gather_after [OF lt, of row bpp]
      have c1: "unat col < unat col'" and cle: "unat col' \<le> unat width"
        by (simp_all add: col'_def)
      have step: "compress_row_loop row width bpp col out = res"
        using compress_row_loop_literal [OF lt, of row bpp out] False
        by (simp add: run_def res_def out'_def col'_def n_def)
      from "1.prems"(1,2) have pre: "prefix res cdata" and len: "length res \<le> unat row_len"
        by (simp_all only: step)
      have p': "prefix out' res" unfolding res_def by (rule prefix_compress_row_loop)
      then have l': "length out' \<le> length res" by (rule prefix_length_le)
      from p' pre have pc: "prefix out' cdata" by (rule prefix_order.trans)
      from l' len have lc: "length out' \<le> unat row_len" by simp
      have split: "(unat width - unat col) * bpp = n * bpp + (unat width - unat col') * bpp"
        using c1 cle by (intro split_mult [symmetric]) (simp add: n_def)
      from "1.prems"(4) split have room: "length dec + n * bpp \<le> row_bytes" by linarith
      have first: "decompress_row_loop cdata row_len row_bytes bpp (length out) dec =
          decompress_row_loop cdata row_len row_bytes bpp (length out') dec'"
        using decode_write_literal_blocks_loop [of row col n bpp 0 out cdata row_len dec row_bytes]
          pc lc room \<open>0 < bpp\<close>
        by (simp add: out'_def write_literal_blocks_def dec'_def)
      have room': "length dec' + (unat width - unat col') * bpp \<le> row_bytes"
        using "1.prems"(4) split by (simp add: dec'_def)
      have IH: "decompress_row_loop cdata row_len row_bytes bpp (length out') dec' =
          decompress_row_loop cdata row_len row_bytes bpp (length res)
            (dec' @ copy_bytes row (unat col' * bpp) ((unat width - unat col') * bpp))"
        using "1.IH"(2) [OF lt refl, folded run_def, OF False refl refl refl,
            folded col'_def, folded n_def, folded out'_def, folded res_def,
            OF pre len cle room' \<open>0 < bpp\<close>] .
      have nb: "unat col' * bpp = unat col * bpp + n * bpp"
        using c1 by (simp add: n_def add_mult_distrib [symmetric])
      have cat: "dec' @ copy_bytes row (unat col' * bpp) ((unat width - unat col') * bpp)
          = dec @ copy_bytes row (unat col * bpp) ((unat width - unat col) * bpp)"
        unfolding split nb dec'_def by (simp add: copy_bytes_add)
      show ?thesis
        by (simp only: step first IH cat)
    qed
  qed
qed

lemma decompress_compress_row:
  assumes "0 < bpp"
    and "unat row_len = length (compress_row row width bpp)"
  shows "decompress_row (compress_row row width bpp) row_len (unat width * bpp) bpp
       = Some (copy_bytes row 0 (unat width * bpp))"
proof -
  let ?cdata = "compress_row row width bpp"
  have "decompress_row_loop ?cdata row_len (unat width * bpp) bpp (length ([] :: u8 list)) [] =
      decompress_row_loop ?cdata row_len (unat width * bpp) bpp
        (length (compress_row_loop row width bpp 0 []))
        ([] @ copy_bytes row (unat (0 :: u32) * bpp) ((unat width - unat (0 :: u32)) * bpp))"
    using assms by (intro decode_compress_row_loop) (simp_all add: compress_row_def)
  then have "decompress_row_loop ?cdata row_len (unat width * bpp) bpp 0 [] =
      decompress_row_loop ?cdata row_len (unat width * bpp) bpp (length ?cdata)
        (copy_bytes row 0 (unat width * bpp))"
    by (simp add: compress_row_def)
  also have "\<dots> = Some (length ?cdata, copy_bytes row 0 (unat width * bpp))"
    by (intro decompress_row_loop_exit) simp
  finally show ?thesis
    by (simp add: decompress_row_def)
qed

lemma read_le_u16_len_bytes:
  "read_le_u16 [of_nat (n AND 0xFF) :: u8, of_nat (drop_bit 8 n AND 0xFF)] 0 = (of_nat n :: u16)"
proof -
  have m: "(0xFF :: nat) = mask 8" by (simp add: mask_eq_exp_minus_1)
  show ?thesis
    unfolding read_le_u16_def m
    by (rule bit_word_eqI) (auto simp: bit_simps)
qed

lemma unat_of_nat_u16: "unat (of_nat n :: u16) = n mod 65536"
  by (simp add: unat_of_nat)

subsection \<open>Decoding a written image\<close>

lemma aif_write_compressed_rows_loop_done:
  "\<not> r < height \<Longrightarrow>
   aif_write_compressed_rows_loop out pixels width height bpp r total_n = (out, total_n)"
  by (subst aif_write_compressed_rows_loop.simps) simp

lemma aif_write_compressed_rows_loop_step:
  "r < height \<Longrightarrow>
   aif_write_compressed_rows_loop out pixels width height bpp r total_n =
     aif_write_compressed_rows_loop (out @ row_record pixels width bpp (unat r)) pixels width height bpp
       (r + 1) (total_n + length (row_record pixels width bpp (unat r)))"
  by (subst aif_write_compressed_rows_loop.simps) (simp add: Let_def row_record_def)

lemma prefix_aif_write_compressed_rows_loop:
  "prefix out (fst (aif_write_compressed_rows_loop out pixels width height bpp r total_n))"
proof (induction out pixels width height bpp r total_n rule: aif_write_compressed_rows_loop.induct)
  case (1 out pixels width height bpp r total_n)
  show ?case
  proof (cases "r < height")
    case False
    then show ?thesis by (simp add: aif_write_compressed_rows_loop_done)
  next
    case True
    have "prefix (out @ row_record pixels width bpp (unat r))
        (fst (aif_write_compressed_rows_loop (out @ row_record pixels width bpp (unat r)) pixels width
          height bpp (r + 1) (total_n + length (row_record pixels width bpp (unat r)))))"
      using "1.IH" [OF True refl refl refl refl refl refl refl]
      by (simp add: row_record_def Let_def)
    then show ?thesis
      unfolding aif_write_compressed_rows_loop_step [OF True] by (rule append_prefixD)
  qed
qed

lemma aif_decompress_image_loop_done:
  "\<not> row < height \<Longrightarrow>
   aif_decompress_image_loop fp width height bpp row full_pixels = Inr full_pixels"
  by (subst aif_decompress_image_loop.simps) simp

lemma aif_decompress_image_loop_record:
  assumes "row < height" and "0 < bpp"
    and "length (compress_row rowdata width bpp) < 65536"
  shows "aif_decompress_image_loop
           (([of_nat (length (compress_row rowdata width bpp) AND 0xFF),
              of_nat (drop_bit 8 (length (compress_row rowdata width bpp)) AND 0xFF)]
             @ compress_row rowdata width bpp) @ more) width height bpp row full_pixels
       = aif_decompress_image_loop more width height bpp (row + 1)
           (full_pixels @ copy_bytes rowdata 0 (unat width * bpp))"
proof -
  let ?buffer = "compress_row rowdata width bpp"
  let ?lb = "[of_nat (length ?buffer AND 0xFF), of_nat (drop_bit 8 (length ?buffer) AND 0xFF)] :: u8 list"
  let ?row_len = "of_nat (length ?buffer) :: u16"
  have rl: "read_le_u16 ?lb 0 = ?row_len"
    by (rule read_le_u16_len_bytes)
  have un: "unat ?row_len = length ?buffer"
    using assms(3) by (simp add: unat_of_nat_u16)
  have dec: "decompress_row ?buffer ?row_len (unat width * bpp) bpp
      = Some (copy_bytes rowdata 0 (unat width * bpp))"
    using assms(2) un by (rule decompress_compress_row)
  show ?thesis
    by (subst aif_decompress_image_loop.simps) (simp add: assms(1) rl un dec Let_def)
qed

lemma copy_bytes_drop:
  "k \<le> length xs \<Longrightarrow> copy_bytes (drop k xs) 0 n = copy_bytes xs k n"
  by (simp add: copy_bytes_def)

lemma decompress_written_rows:
  assumes "0 < bpp"
    and "unat height * (unat width * bpp) \<le> length pixels"
    and "\<And>i. i < unat height \<Longrightarrow>
          length (compress_row (drop (i * (unat width * bpp)) pixels) width bpp) < 65536"
    and "unat r \<le> unat height"
  shows "aif_decompress_image_loop
           (drop (length out)
              (fst (aif_write_compressed_rows_loop out pixels width height bpp r total_n)) @ rest)
           width height bpp r full_pixels
       = Inr (full_pixels @
              copy_bytes pixels (unat r * (unat width * bpp))
                ((unat height - unat r) * (unat width * bpp)))"
  using assms
proof (induction out pixels width height bpp r total_n arbitrary: full_pixels
    rule: aif_write_compressed_rows_loop.induct)
  case (1 out pixels width height bpp r total_n)
  note bpp = "1.prems"(1) and len = "1.prems"(2) and rows = "1.prems"(3) and rle = "1.prems"(4)
  define rb where "rb = unat width * bpp"
  show ?case
  proof (cases "r < height")
    case False
    with rle have "unat height - unat r = 0" by (simp add: word_less_nat_alt)
    with False show ?thesis
      by (simp add: aif_write_compressed_rows_loop_done aif_decompress_image_loop_done)
  next
    case True
    then have rlt: "unat r < unat height" by (simp add: word_less_nat_alt)
    have suc: "unat (r + 1) = Suc (unat r)" using True by (rule u32_less_Suc)
    define rowdata where "rowdata = drop (unat r * rb) pixels"
    define rec where "rec = row_record pixels width bpp (unat r)"
    define out2 where "out2 = out @ rec"
    define res where "res = fst (aif_write_compressed_rows_loop out2 pixels width height bpp
        (r + 1) (total_n + length rec))"
    define data' where "data' = drop (length out2) res"
    have step: "fst (aif_write_compressed_rows_loop out pixels width height bpp r total_n) = res"
      by (simp add: aif_write_compressed_rows_loop_step [OF True] res_def out2_def rec_def)
    have "prefix out2 res"
      unfolding res_def by (rule prefix_aif_write_compressed_rows_loop)
    then have res: "res = out2 @ data'"
      by (auto simp: prefix_def data'_def)
    have dr: "drop (length out) res = rec @ data'"
      by (simp add: res out2_def)
    have small: "length (compress_row rowdata width bpp) < 65536"
      using rows [OF rlt] by (simp add: rowdata_def rb_def)
    have rec': "rec = [of_nat (length (compress_row rowdata width bpp) AND 0xFF),
              of_nat (drop_bit 8 (length (compress_row rowdata width bpp)) AND 0xFF)]
             @ compress_row rowdata width bpp"
      by (simp add: rec_def row_record_def Let_def rowdata_def rb_def)
    have first: "aif_decompress_image_loop (rec @ data' @ rest) width height bpp r full_pixels
        = aif_decompress_image_loop (data' @ rest) width height bpp (r + 1)
            (full_pixels @ copy_bytes rowdata 0 rb)"
      using aif_decompress_image_loop_record [OF True bpp small, of "data' @ rest" full_pixels]
      unfolding rec' [symmetric] rb_def by simp
    from rlt have "unat r * rb + rb \<le> unat height * rb"
      using mult_le_mono1 [of "Suc (unat r)" "unat height" rb] by simp
    with len have inb: "unat r * rb \<le> length pixels" by (simp add: rb_def)
    have row: "copy_bytes rowdata 0 rb = copy_bytes pixels (unat r * rb) rb"
      unfolding rowdata_def using inb by (rule copy_bytes_drop)
    from rlt suc have le': "unat (r + 1) \<le> unat height" by simp
    have IH: "aif_decompress_image_loop (data' @ rest) width height bpp (r + 1)
            (full_pixels @ copy_bytes rowdata 0 rb)
        = Inr ((full_pixels @ copy_bytes rowdata 0 rb) @
              copy_bytes pixels (unat (r + 1) * rb) ((unat height - unat (r + 1)) * rb))"
      using "1.IH" [OF True refl refl refl refl refl refl refl bpp len rows le',
          of "full_pixels @ copy_bytes rowdata 0 rb"]
      by (simp add: data'_def res_def out2_def rec_def row_record_def Let_def rb_def)
    have split: "(unat height - unat r) * rb = rb + (unat height - unat (r + 1)) * rb"
      using rlt suc split_mult [of 1 "unat height - unat (r + 1)" "unat height - unat r" rb]
      by simp
    have cat: "copy_bytes pixels (unat r * rb) rb @
          copy_bytes pixels (unat (r + 1) * rb) ((unat height - unat (r + 1)) * rb)
        = copy_bytes pixels (unat r * rb) ((unat height - unat r) * rb)"
      unfolding split suc by (simp add: copy_bytes_add add.commute)
    show ?thesis
      unfolding step dr rb_def [symmetric]
      using first IH row cat by simp
  qed
qed

section \<open>Rows of identical pixels\<close>

lemma measure_run_loop_uniform:
  "unat start + run \<le> unat width \<Longrightarrow>
   (\<And>j. unat start + j < unat width \<Longrightarrow>
      copy_bytes row ((unat start + j) * bpp) bpp = copy_bytes row (unat start * bpp) bpp) \<Longrightarrow>
   measure_run_loop row width bpp start run = unat width - unat start"
proof (induction row width bpp start run rule: measure_run_loop.induct)
  case (1 row width bpp start run)
  note le = "1.prems"(1) and same = "1.prems"(2)
  have eq: "unat (start + of_nat run) = unat start + run"
    using le by (rule unat_add_of_nat)
  show ?case
  proof (cases "start + of_nat run < width")
    case False
    then have "unat start + run = unat width"
      using le by (simp add: word_less_nat_alt eq)
    with False show ?thesis by (subst measure_run_loop.simps) simp
  next
    case lt: True
    then have l: "unat start + run < unat width" by (simp add: word_less_nat_alt eq)
    then have le': "unat start + (run + 1) \<le> unat width" by simp
    have pe: "pixels_equal row (unat start * bpp) ((unat start + run) * bpp) bpp"
      using same [OF l] by (simp add: pixels_equal_iff)
    then have npe: "\<not> \<not> pixels_equal row (unat start * bpp) ((unat start + run) * bpp) bpp"
      by simp
    have "measure_run_loop row width bpp start run = measure_run_loop row width bpp start (run + 1)"
      using lt pe by (subst measure_run_loop.simps) simp
    also have "\<dots> = unat width - unat start"
      using lt npe le' same by (rule "1.IH")
    finally show ?thesis .
  qed
qed

lemma copy_bytes_concat_replicate:
  assumes "j < n"
  shows "copy_bytes (concat (replicate n px)) (j * length px) (length px) = px"
proof -
  from assms have n: "n = j + 1 + (n - j - 1)" by simp
  have "concat (replicate n px) = concat (replicate j px) @ px @ concat (replicate (n - j - 1) px)"
    by (subst n) (simp only: replicate_add concat_append, simp)
  moreover have "copy_bytes ((concat (replicate j px) @ px) @ concat (replicate (n - j - 1) px))
       (length (concat (replicate j px))) (length px)
     = copy_bytes (concat (replicate j px) @ px) (length (concat (replicate j px))) (length px)"
    by (rule prefix_copy_bytes) simp_all
  ultimately show ?thesis
    using copy_bytes_append_right [of "concat (replicate j px)" px] by simp
qed

lemma compress_row_uniform:
  assumes "2 \<le> unat width" and "bpp = length px"
  shows "compress_row (concat (replicate (unat width) px)) width bpp =
         write_repeat_blocks_loop (concat (replicate (unat width) px)) 0 (unat width) bpp []"
proof -
  let ?row = "concat (replicate (unat width) px)"
  from assms(1) have lt: "(0 :: u32) < width" by (simp add: word_less_nat_alt)
  have same: "copy_bytes ?row ((unat (0 :: u32) + j) * bpp) bpp = copy_bytes ?row (unat (0 :: u32) * bpp) bpp"
    if "unat (0 :: u32) + j < unat width" for j
    using that assms copy_bytes_concat_replicate [of j "unat width" px]
      copy_bytes_concat_replicate [of 0 "unat width" px]
    by simp
  have "measure_run_loop ?row width bpp 0 1 = unat width - unat (0 :: u32)"
    using assms(1) same by (intro measure_run_loop_uniform) simp_all
  then have run: "measure_run ?row width bpp 0 = unat width"
    by (simp add: measure_run_def)
  have "compress_row_loop ?row width bpp 0 [] =
      compress_row_loop ?row width bpp (0 + of_nat (unat width))
        (write_repeat_blocks ?row (unat (0 :: u32) * bpp) (unat width) bpp [])"
    using compress_row_loop_repeat [OF lt, of ?row bpp "[]"] assms(1) by (simp add: run)
  also have "\<dots> = write_repeat_blocks ?row 0 (unat width) bpp []"
    by (simp add: compress_row_loop_done)
  finally show ?thesis
    by (simp add: compress_row_def write_repeat_blocks_def)
qed

lemma write_repeat_blocks_loop_counts:
  "\<exists>counts. length counts = (remaining + 254) div 255
     \<and> list_all (\<lambda>c. 1 \<le> c \<and> c \<le> 255) counts
     \<and> sum_list counts = remaining
     \<and> write_repeat_blocks_loop buf off remaining bpp out =
         out @ concat (map (\<lambda>c. (of_nat c :: u8) # copy_bytes buf off bpp) counts)"
proof (induction buf off remaining bpp out rule: write_repeat_blocks_loop.induct)
  case (1 buf off remaining bpp out)
  show ?case
  proof (cases "remaining > 0")
    case False
    then have "write_repeat_blocks_loop buf off remaining bpp out = out"
      by (subst write_repeat_blocks_loop.simps) simp
    with False show ?thesis by (intro exI [of _ "[]"]) simp
  next
    case True
    define c where "c = (if remaining > 255 then 255 else remaining)"
    define chunk :: u8 where "chunk = (if remaining > 255 then 255 else of_nat remaining)"
    have u: "unat chunk = c" unfolding chunk_def c_def by (rule unat_chunk)
    have ch: "chunk = of_nat c" by (simp add: chunk_def c_def)
    from True have c1: "1 \<le> c" "c \<le> 255" "c \<le> remaining" by (simp_all add: c_def)
    have step: "write_repeat_blocks_loop buf off remaining bpp out =
        write_repeat_blocks_loop buf off (remaining - c) bpp
          ((out @ [chunk]) @ copy_bytes buf off bpp)"
      using True by (subst write_repeat_blocks_loop.simps) (simp add: Let_def chunk_def c_def unat_chunk)
    from "1.IH" [OF True refl refl refl, folded chunk_def, unfolded u]
    obtain counts where cs: "length counts = (remaining - c + 254) div 255"
      "list_all (\<lambda>c. 1 \<le> c \<and> c \<le> 255) counts" "sum_list counts = remaining - c"
      "write_repeat_blocks_loop buf off (remaining - c) bpp ((out @ [chunk]) @ copy_bytes buf off bpp)
        = ((out @ [chunk]) @ copy_bytes buf off bpp)
            @ concat (map (\<lambda>c. (of_nat c :: u8) # copy_bytes buf off bpp) counts)"
      by blast
    have "length (c # counts) = (remaining + 254) div 255"
      using cs(1) ceil_div_step [OF True, of c] by (simp add: c_def)
    moreover have "list_all (\<lambda>c. 1 \<le> c \<and> c \<le> 255) (c # counts)"
      using cs(2) c1 by simp
    moreover have "sum_list (c # counts) = remaining" using cs(3) c1 by simp
    moreover have "write_repeat_blocks_loop buf off remaining bpp out =
         out @ concat (map (\<lambda>c. (of_nat c :: u8) # copy_bytes buf off bpp) (c # counts))"
      unfolding step cs(4) by (simp add: ch)
    ultimately show ?thesis by blast
  qed
qed

section \<open>How much a compressed row can decode to\<close>

lemma unat_u8_le: "unat (x :: u8) \<le> 255"
  using unsigned_less [of x, where 'a = nat] by simp

lemma repeat_block_ratio:
  fixes c bpp lo cp :: nat
  assumes "c \<le> 255"
  shows "(lo + c * bpp) * (1 + bpp) + 255 * bpp * cp \<le> lo * (1 + bpp) + 255 * bpp * (cp + 1 + bpp)"
proof -
  have "c * (bpp * (1 + bpp)) \<le> 255 * (bpp * (1 + bpp))"
    using assms by (rule mult_le_mono1)
  then show ?thesis by (simp add: algebra_simps)
qed

lemma literal_block_ratio:
  fixes n bpp lo cp :: nat
  assumes "n \<le> 255"
  shows "(lo + n * bpp) * (1 + bpp) + 255 * bpp * cp \<le> lo * (1 + bpp) + 255 * bpp * (cp + 2 + n * bpp)"
proof -
  have a: "n * bpp \<le> 510 * bpp" using assms by (intro mult_le_mono1) simp
  have "1 * (n * (bpp * bpp)) \<le> 255 * (n * (bpp * bpp))" by (rule mult_le_mono1) simp
  then have b: "n * (bpp * bpp) \<le> 255 * (n * (bpp * bpp))" by (simp only: mult_1)
  have e1: "(lo + n * bpp) * (1 + bpp) = lo * (1 + bpp) + (n * bpp + n * (bpp * bpp))"
    by (simp add: algebra_simps)
  have e2: "255 * bpp * (cp + 2 + n * bpp) = 255 * bpp * cp + (510 * bpp + 255 * (n * (bpp * bpp)))"
    by (simp add: algebra_simps)
  from a b show ?thesis unfolding e1 e2 by linarith
qed

lemma length_concat_map_copy_bytes [simp]:
  "length (concat (map (\<lambda>p. copy_bytes buf (f p) bpp) xs)) = length xs * bpp"
  by (induction xs) simp_all

lemma decompress_block_bound:
  assumes "decompress_block cdata row_len row_bytes bpp cp out = Some (cp', out')"
  shows "cp' \<le> unat row_len"
    and "length out' * (1 + bpp) + 255 * bpp * cp \<le> length out * (1 + bpp) + 255 * bpp * cp'"
proof -
  show "cp' \<le> unat row_len"
    using assms
    by (auto simp: decompress_block_def decompress_repeat_block_def decompress_literal_block_def
        Let_def split: if_splits)
  show "length out' * (1 + bpp) + 255 * bpp * cp \<le> length out * (1 + bpp) + 255 * bpp * cp'"
  proof (cases "cdata ! cp \<noteq> 0")
    case True
    with assms have "cp' = cp + 1 + bpp" and "length out' = length out + unat (cdata ! cp) * bpp"
      by (auto simp: decompress_block_def decompress_repeat_block_def Let_def split: if_splits)
    then show ?thesis
      using repeat_block_ratio [OF unat_u8_le, of "length out" "cdata ! cp" bpp cp] by simp
  next
    case False
    with assms have "cp' = cp + 2 + unat (cdata ! (cp + 1)) * bpp"
      and "length out' = length out + unat (cdata ! (cp + 1)) * bpp"
      by (auto simp: decompress_block_def decompress_literal_block_def Let_def split: if_splits)
    then show ?thesis
      using literal_block_ratio [OF unat_u8_le, of "length out" "cdata ! (cp + 1)" bpp cp] by simp
  qed
qed

lemma decompress_row_loop_bound:
  "decompress_row_loop cdata row_len row_bytes bpp cp out = Some (cp', out') \<Longrightarrow>
   cp \<le> unat row_len \<Longrightarrow>
   cp' \<le> unat row_len \<and>
   length out' * (1 + bpp) + 255 * bpp * cp \<le> length out * (1 + bpp) + 255 * bpp * cp'"
proof (induction cdata row_len row_bytes bpp cp out rule: decompress_row_loop.induct)
  case (1 cdata row_len row_bytes bpp cp out)
  show ?case
  proof (cases "length out < row_bytes \<and> cp < unat row_len")
    case False
    then have "decompress_row_loop cdata row_len row_bytes bpp cp out = Some (cp, out)"
      by (rule decompress_row_loop_exit)
    with "1.prems" show ?thesis by simp
  next
    case True
    then have lt: "length out < row_bytes" and cl: "cp < unat row_len" by simp_all
    show ?thesis
    proof (cases "decompress_block cdata row_len row_bytes bpp cp out")
      case None
      with "1.prems"(1) lt cl show ?thesis by (simp add: decompress_row_loop_fail)
    next
      case (Some st)
      obtain cp1 out1 where st: "st = (cp1, out1)" by (cases st)
      with Some have blk: "decompress_block cdata row_len row_bytes bpp cp out = Some (cp1, out1)"
        by simp
      note b = decompress_block_bound [OF blk]
      from "1.prems"(1) have rest: "decompress_row_loop cdata row_len row_bytes bpp cp1 out1 = Some (cp', out')"
        by (simp add: decompress_row_loop_step [OF lt cl blk])
      from "1.IH" [OF True blk refl rest b(1)]
      have "cp' \<le> unat row_len" and
        "length out' * (1 + bpp) + 255 * bpp * cp1 \<le> length out1 * (1 + bpp) + 255 * bpp * cp'"
        by simp_all
      with b(2) show ?thesis by linarith
    qed
  qed
qed

lemma decompress_row_capacity:
  assumes "decompress_row cdata row_len row_bytes bpp = Some out"
  shows "row_bytes * (1 + bpp) \<le> 255 * bpp * 65535"
proof -
  from assms obtain cp' where loop: "decompress_row_loop cdata row_len row_bytes bpp 0 [] = Some (cp', out)"
    and len: "length out = row_bytes"
    by (auto simp: decompress_row_def split: option.splits if_splits)
  from decompress_row_loop_bound [OF loop]
  have c: "cp' \<le> unat row_len" and r: "length out * (1 + bpp) \<le> 255 * bpp * cp'" by simp_all
  have "unat row_len \<le> 65535" using unsigned_less [of row_len, where 'a = nat] by simp
  with c have "cp' \<le> 65535" by simp
  then have m: "255 * bpp * cp' \<le> 255 * bpp * 65535" by (rule mult_le_mono2)
  from r have "row_bytes * (1 + bpp) \<le> 255 * bpp * cp'" by (simp only: len)
  then show ?thesis using m by (rule order_trans)
qed

section \<open>Repeat-run splitting\<close>

text \<open>
  Claim C7, as stated: for every width above 255 the row of \<open>width\<close> identical pixels is
  encoded as \<open>ceil(width / 255)\<close> repeat blocks and decoding that stream reproduces the
  row.  The decoding half fails for wide rows: \<open>decompress_row\<close> takes the compressed
  length as a 16-bit value, and \<open>65535\<close> compressed bytes decode to fewer than
  \<open>9000000\<close> output bytes whatever they are, so for the GRAY8 row of 9000000 zero
  pixels no declared length makes the encoder's stream decode.
\<close>

theorem uniform_row_counterexample:
  "\<not> (\<exists>row_len.
        decompress_row (compress_row (concat (replicate 9000000 [0])) 9000000 1) row_len 9000000 1
          = Some (concat (replicate 9000000 [0])))"
proof
  assume "\<exists>row_len.
        decompress_row (compress_row (concat (replicate 9000000 [0])) 9000000 1) row_len 9000000 1
          = Some (concat (replicate 9000000 [0]))"
  then obtain row_len where
    "decompress_row (compress_row (concat (replicate 9000000 [0])) 9000000 1) row_len 9000000 1
          = Some (concat (replicate 9000000 [0]))" ..
  then have "(9000000 :: nat) * (1 + 1) \<le> 255 * 1 * 65535"
    by (rule decompress_row_capacity)
  then show False by simp
qed

text \<open>
  Claim C7, amended: for every width above 255, \<open>bpp\<close> 1 or 3 and every pixel value,
  \<open>compress_row\<close> on the row of \<open>width\<close> identical pixels emits exactly
  \<open>ceil(width / 255)\<close> consecutive repeat blocks (a count byte followed by the pixel),
  each count in \<open>[1, 255]\<close>, the counts summing to \<open>width\<close>; and when the length of that
  stream fits the 16-bit declared row length, \<open>decompress_row\<close> on it reproduces the
  pixel \<open>width\<close> times.
\<close>

theorem uniform_row_blocks:
  assumes "255 < unat width" and "bpp = 1 \<or> bpp = 3" and "length px = bpp"
  shows "\<exists>counts.
      length counts = (unat width + 254) div 255
      \<and> list_all (\<lambda>c. 1 \<le> c \<and> c \<le> 255) counts
      \<and> sum_list counts = unat width
      \<and> compress_row (concat (replicate (unat width) px)) width bpp
          = concat (map (\<lambda>c. of_nat c # px) counts)
      \<and> (unat row_len = length (compress_row (concat (replicate (unat width) px)) width bpp) \<longrightarrow>
           decompress_row (compress_row (concat (replicate (unat width) px)) width bpp)
             row_len (unat width * bpp) bpp = Some (concat (replicate (unat width) px)))"
proof -
  let ?row = "concat (replicate (unat width) px)"
  from assms(2) have bpp: "0 < bpp" by auto
  from assms(1) have w2: "2 \<le> unat width" by simp
  have enc: "compress_row ?row width bpp = write_repeat_blocks_loop ?row 0 (unat width) bpp []"
    using w2 assms(3) [symmetric] by (rule compress_row_uniform)
  have w0: "0 < unat width" using assms(1) by simp
  have px: "copy_bytes ?row 0 bpp = px"
    using copy_bytes_concat_replicate [OF w0, of px] assms(3) by simp
  from write_repeat_blocks_loop_counts [of "unat width" ?row 0 bpp "[]"]
  obtain counts where cs: "length counts = (unat width + 254) div 255"
    "list_all (\<lambda>c. 1 \<le> c \<and> c \<le> 255) counts" "sum_list counts = unat width"
    "write_repeat_blocks_loop ?row 0 (unat width) bpp []
      = [] @ concat (map (\<lambda>c. (of_nat c :: u8) # copy_bytes ?row 0 bpp) counts)"
    by blast
  have blocks: "compress_row ?row width bpp = concat (map (\<lambda>c. of_nat c # px) counts)"
    unfolding enc cs(4) px by simp
  have len: "length ?row = unat width * bpp" by (simp add: assms(3))
  have whole: "copy_bytes ?row 0 (unat width * bpp) = ?row"
    using copy_bytes_whole [of ?row] by (simp only: len)
  have dec: "decompress_row (compress_row ?row width bpp) row_len (unat width * bpp) bpp = Some ?row"
    if "unat row_len = length (compress_row ?row width bpp)"
    using decompress_compress_row [OF bpp that] by (simp only: whole)
  from cs(1,2,3) blocks dec show ?thesis by blast
qed

theorem uniform_row_blocks_witness:
  "255 < unat (256 :: u32) \<and> ((1 :: nat) = 1 \<or> (1 :: nat) = 3) \<and> length [7 :: u8] = 1
   \<and> unat (4 :: u16) = length (compress_row (concat (replicate (unat (256 :: u32)) [7])) 256 1)
   \<and> (\<exists>counts.
        length counts = (unat (256 :: u32) + 254) div 255
        \<and> list_all (\<lambda>c. 1 \<le> c \<and> c \<le> 255) counts
        \<and> sum_list counts = unat (256 :: u32)
        \<and> compress_row (concat (replicate (unat (256 :: u32)) [7])) 256 1
            = concat (map (\<lambda>c. of_nat c # [7]) counts))
   \<and> decompress_row (compress_row (concat (replicate (unat (256 :: u32)) [7])) 256 1)
         4 (unat (256 :: u32) * 1) 1 = Some (concat (replicate (unat (256 :: u32)) [7]))"
proof -
  have h1: "255 < unat (256 :: u32)" by simp
  have h2: "(1 :: nat) = 1 \<or> (1 :: nat) = 3" by simp
  have h3: "length [7 :: u8] = 1" by simp
  have "2 \<le> unat (256 :: u32)" by simp
  then have "compress_row (concat (replicate (unat (256 :: u32)) [7])) 256 1
      = write_repeat_blocks_loop (concat (replicate (unat (256 :: u32)) [7])) 0 (unat (256 :: u32)) 1 []"
    by (rule compress_row_uniform) simp
  then have "length (compress_row (concat (replicate (unat (256 :: u32)) [7])) 256 1)
      = ((unat (256 :: u32) + 254) div 255) * (1 + 1)"
    by (simp only: length_write_repeat_blocks_loop list.size add_0)
  then have h4: "unat (4 :: u16) = length (compress_row (concat (replicate (unat (256 :: u32)) [7])) 256 1)"
    by simp
  from uniform_row_blocks [OF h1 h2 h3, of 4] h1 h2 h3 h4 show ?thesis
    by blast
qed

section \<open>Malformed compressed rows\<close>

lemma decode_reaches_loop:
  "decode_reaches cdata row_len row_bytes bpp cp out \<Longrightarrow>
   decompress_row_loop cdata row_len row_bytes bpp 0 [] =
   decompress_row_loop cdata row_len row_bytes bpp cp out"
proof (induction rule: decode_reaches.induct)
  case start
  show ?case ..
next
  case (block cp out cp' out')
  then show ?case by (simp add: decompress_row_loop_step)
qed

lemma decompress_block_malformed:
  assumes "(cdata ! cp = 0 \<and> cdata ! (cp + 1) = 0)
         \<or> (cdata ! cp \<noteq> 0 \<and> unat row_len < cp + 1 + bpp)
         \<or> (cdata ! cp = 0 \<and> unat row_len < cp + 2 + unat (cdata ! (cp + 1)) * bpp)
         \<or> (cdata ! cp \<noteq> 0 \<and> row_bytes < length out + unat (cdata ! cp) * bpp)
         \<or> (cdata ! cp = 0 \<and> row_bytes < length out + unat (cdata ! (cp + 1)) * bpp)"
  shows "decompress_block cdata row_len row_bytes bpp cp out = None"
  using assms
  by (auto simp: decompress_block_def decompress_repeat_block_def decompress_literal_block_def Let_def)

lemma decompress_block_within:
  assumes "decompress_block cdata row_len row_bytes bpp cp out = Some (cp', out')"
  shows "length out' \<le> row_bytes" and "prefix out out'"
  using assms
  by (auto simp: decompress_block_def decompress_repeat_block_def decompress_literal_block_def
      Let_def split: if_splits)

lemma decode_reaches_within:
  "decode_reaches cdata row_len row_bytes bpp cp out \<Longrightarrow>
   length out \<le> row_bytes \<and> cp \<le> unat row_len"
proof (induction rule: decode_reaches.induct)
  case start
  show ?case by simp
next
  case (block cp out cp' out')
  from decompress_block_within(1) [OF block.hyps(4)] decompress_block_bound(1) [OF block.hyps(4)]
  show ?case ..
qed

text \<open>
  Claim C2: whenever the decoder, at the start of a block, meets (a) a literal block that
  declares count 0, (b) a repeat block whose pixel, or a literal block whose
  \<open>count * bpp\<close> payload, would read past the declared compressed row length, (c) a block
  whose output would run the output cursor past \<open>row_bytes = width * bpp\<close>, or (d) leaves
  the loop with a total of decoded bytes other than \<open>row_bytes\<close>, \<open>decompress_row\<close>
  returns failure.  It fails without writing out of bounds: in cases (a) to (c) the block
  decoder itself returns failure, so the offending block appends nothing to the output, and
  in every case the output cursor is at most \<open>row_bytes\<close> and the compressed cursor at
  most the declared row length.  The model has no other outcome than failure or the decoded
  row.
\<close>

theorem malformed_row_rejected:
  assumes "decode_reaches cdata row_len row_bytes bpp cp out"
    and "(length out < row_bytes \<and> cp < unat row_len \<and>
           ((cdata ! cp = 0 \<and> cdata ! (cp + 1) = 0)
          \<or> (cdata ! cp \<noteq> 0 \<and> unat row_len < cp + 1 + bpp)
          \<or> (cdata ! cp = 0 \<and> unat row_len < cp + 2 + unat (cdata ! (cp + 1)) * bpp)
          \<or> (cdata ! cp \<noteq> 0 \<and> row_bytes < length out + unat (cdata ! cp) * bpp)
          \<or> (cdata ! cp = 0 \<and> row_bytes < length out + unat (cdata ! (cp + 1)) * bpp)))
       \<or> (\<not> (length out < row_bytes \<and> cp < unat row_len) \<and> length out \<noteq> row_bytes)"
  shows "decompress_row cdata row_len row_bytes bpp = None
    \<and> length out \<le> row_bytes \<and> cp \<le> unat row_len
    \<and> (length out < row_bytes \<and> cp < unat row_len \<longrightarrow>
         decompress_block cdata row_len row_bytes bpp cp out = None)"
proof -
  note eq = decode_reaches_loop [OF assms(1)]
  note within = decode_reaches_within [OF assms(1)]
  let ?bad = "(cdata ! cp = 0 \<and> cdata ! (cp + 1) = 0)
          \<or> (cdata ! cp \<noteq> 0 \<and> unat row_len < cp + 1 + bpp)
          \<or> (cdata ! cp = 0 \<and> unat row_len < cp + 2 + unat (cdata ! (cp + 1)) * bpp)
          \<or> (cdata ! cp \<noteq> 0 \<and> row_bytes < length out + unat (cdata ! cp) * bpp)
          \<or> (cdata ! cp = 0 \<and> row_bytes < length out + unat (cdata ! (cp + 1)) * bpp)"
  from assms(2) consider
      (in_loop) "length out < row_bytes" and "cp < unat row_len" and "?bad"
    | (after_loop) "\<not> (length out < row_bytes \<and> cp < unat row_len)" and "length out \<noteq> row_bytes"
    by blast
  then show ?thesis
  proof cases
    case after_loop
    then have "decompress_row_loop cdata row_len row_bytes bpp cp out = Some (cp, out)"
      by (intro decompress_row_loop_exit)
    with eq after_loop(2) have "decompress_row cdata row_len row_bytes bpp = None"
      by (simp add: decompress_row_def)
    with within after_loop(1) show ?thesis by blast
  next
    case in_loop
    from in_loop(3) have blk: "decompress_block cdata row_len row_bytes bpp cp out = None"
      by (rule decompress_block_malformed)
    with in_loop(1,2) have "decompress_row_loop cdata row_len row_bytes bpp cp out = None"
      by (rule decompress_row_loop_fail)
    with eq have "decompress_row cdata row_len row_bytes bpp = None"
      by (simp add: decompress_row_def)
    with within blk show ?thesis by blast
  qed
qed


theorem malformed_row_rejected_witness:
  "decode_reaches [3, 10, 0, 0] 4 4 1 2 [10, 10, 10]
   \<and> length [10, 10, 10 :: u8] < 4 \<and> 2 < unat (4 :: u16)
   \<and> [3, 10, 0, 0 :: u8] ! 2 = 0 \<and> [3, 10, 0, 0 :: u8] ! (2 + 1) = 0
   \<and> decompress_row [3, 10, 0, 0] 4 4 1 = None
   \<and> decompress_block [3, 10, 0, 0] 4 4 1 2 [10, 10, 10] = None
   \<and> decode_reaches [3, 10, 5] 3 4 1 2 [10, 10, 10]
   \<and> length [10, 10, 10 :: u8] < 4 \<and> 2 < unat (3 :: u16)
   \<and> [3, 10, 5 :: u8] ! 2 \<noteq> 0 \<and> unat (3 :: u16) < 2 + 1 + 1
   \<and> decompress_row [3, 10, 5] 3 4 1 = None
   \<and> decompress_block [3, 10, 5] 3 4 1 2 [10, 10, 10] = None
   \<and> decode_reaches [0, 3, 1, 2] 4 4 1 0 []
   \<and> length ([] :: u8 list) < 4 \<and> 0 < unat (4 :: u16)
   \<and> [0, 3, 1, 2 :: u8] ! 0 = 0 \<and> unat (4 :: u16) < 0 + 2 + unat ([0, 3, 1, 2 :: u8] ! (0 + 1)) * 1
   \<and> decompress_row [0, 3, 1, 2] 4 4 1 = None
   \<and> decompress_block [0, 3, 1, 2] 4 4 1 0 [] = None
   \<and> decode_reaches [3, 10, 2, 7] 4 4 1 2 [10, 10, 10]
   \<and> length [10, 10, 10 :: u8] < 4 \<and> 2 < unat (4 :: u16)
   \<and> [3, 10, 2, 7 :: u8] ! 2 \<noteq> 0
   \<and> 4 < length [10, 10, 10 :: u8] + unat ([3, 10, 2, 7 :: u8] ! 2) * 1
   \<and> decompress_row [3, 10, 2, 7] 4 4 1 = None
   \<and> decompress_block [3, 10, 2, 7] 4 4 1 2 [10, 10, 10] = None
   \<and> length [10, 10, 10 :: u8] \<le> 4
   \<and> decode_reaches [3, 10, 0, 2, 7, 8] 6 4 1 2 [10, 10, 10]
   \<and> length [10, 10, 10 :: u8] < 4 \<and> 2 < unat (6 :: u16)
   \<and> [3, 10, 0, 2, 7, 8 :: u8] ! 2 = 0
   \<and> 4 < length [10, 10, 10 :: u8] + unat ([3, 10, 0, 2, 7, 8 :: u8] ! (2 + 1)) * 1
   \<and> decompress_row [3, 10, 0, 2, 7, 8] 6 4 1 = None
   \<and> decompress_block [3, 10, 0, 2, 7, 8] 6 4 1 2 [10, 10, 10] = None
   \<and> decode_reaches [3, 10] 2 4 1 2 [10, 10, 10]
   \<and> \<not> (length [10, 10, 10 :: u8] < 4 \<and> 2 < unat (2 :: u16)) \<and> length [10, 10, 10 :: u8] \<noteq> 4
   \<and> decompress_row [3, 10] 2 4 1 = None"
proof -
  have b1: "decompress_block [3, 10, 0, 0] 4 4 1 0 [] = Some (2, [10, 10, 10])" by code_simp
  have r1: "decode_reaches [3, 10, 0, 0] 4 4 1 2 [10, 10, 10]"
    by (rule decode_reaches.block [OF decode_reaches.start _ _ b1]) simp_all
  have a1: "length [10, 10, 10 :: u8] < 4" "2 < unat (4 :: u16)"
    "[3, 10, 0, 0 :: u8] ! 2 = 0" "[3, 10, 0, 0 :: u8] ! (2 + 1) = 0"
    by simp_all
  have c1: "decompress_row [3, 10, 0, 0] 4 4 1 = None
      \<and> decompress_block [3, 10, 0, 0] 4 4 1 2 [10, 10, 10] = None"
    using malformed_row_rejected [OF r1] a1 by blast
  have b2: "decompress_block [3, 10, 5] 3 4 1 0 [] = Some (2, [10, 10, 10])" by code_simp
  have r2: "decode_reaches [3, 10, 5] 3 4 1 2 [10, 10, 10]"
    by (rule decode_reaches.block [OF decode_reaches.start _ _ b2]) simp_all
  have a2: "length [10, 10, 10 :: u8] < 4" "2 < unat (3 :: u16)"
    "[3, 10, 5 :: u8] ! 2 \<noteq> 0" "unat (3 :: u16) < 2 + 1 + 1"
    by simp_all
  have c2: "decompress_row [3, 10, 5] 3 4 1 = None
      \<and> decompress_block [3, 10, 5] 3 4 1 2 [10, 10, 10] = None"
    using malformed_row_rejected [OF r2] a2 by blast
  have r3: "decode_reaches [0, 3, 1, 2] 4 4 1 0 []"
    by (rule decode_reaches.start)
  have a3: "length ([] :: u8 list) < 4" "0 < unat (4 :: u16)" "[0, 3, 1, 2 :: u8] ! 0 = 0"
    "unat (4 :: u16) < 0 + 2 + unat ([0, 3, 1, 2 :: u8] ! (0 + 1)) * 1"
    by simp_all
  have c3: "decompress_row [0, 3, 1, 2] 4 4 1 = None
      \<and> decompress_block [0, 3, 1, 2] 4 4 1 0 [] = None"
    using malformed_row_rejected [OF r3] a3 by blast
  have b4: "decompress_block [3, 10, 2, 7] 4 4 1 0 [] = Some (2, [10, 10, 10])" by code_simp
  have r4: "decode_reaches [3, 10, 2, 7] 4 4 1 2 [10, 10, 10]"
    by (rule decode_reaches.block [OF decode_reaches.start _ _ b4]) simp_all
  have a4: "length [10, 10, 10 :: u8] < 4" "2 < unat (4 :: u16)" "[3, 10, 2, 7 :: u8] ! 2 \<noteq> 0"
    "4 < length [10, 10, 10 :: u8] + unat ([3, 10, 2, 7 :: u8] ! 2) * 1"
    by simp_all
  have c4: "decompress_row [3, 10, 2, 7] 4 4 1 = None
      \<and> decompress_block [3, 10, 2, 7] 4 4 1 2 [10, 10, 10] = None
      \<and> length [10, 10, 10 :: u8] \<le> 4"
    using malformed_row_rejected [OF r4] a4 by blast
  have b5: "decompress_block [3, 10, 0, 2, 7, 8] 6 4 1 0 [] = Some (2, [10, 10, 10])" by code_simp
  have r5: "decode_reaches [3, 10, 0, 2, 7, 8] 6 4 1 2 [10, 10, 10]"
    by (rule decode_reaches.block [OF decode_reaches.start _ _ b5]) simp_all
  have a5: "length [10, 10, 10 :: u8] < 4" "2 < unat (6 :: u16)" "[3, 10, 0, 2, 7, 8 :: u8] ! 2 = 0"
    "4 < length [10, 10, 10 :: u8] + unat ([3, 10, 0, 2, 7, 8 :: u8] ! (2 + 1)) * 1"
    by simp_all
  have c5: "decompress_row [3, 10, 0, 2, 7, 8] 6 4 1 = None
      \<and> decompress_block [3, 10, 0, 2, 7, 8] 6 4 1 2 [10, 10, 10] = None"
    using malformed_row_rejected [OF r5] a5 by blast
  have b6: "decompress_block [3, 10] 2 4 1 0 [] = Some (2, [10, 10, 10])" by code_simp
  have r6: "decode_reaches [3, 10] 2 4 1 2 [10, 10, 10]"
    by (rule decode_reaches.block [OF decode_reaches.start _ _ b6]) simp_all
  have a6: "\<not> (length [10, 10, 10 :: u8] < 4 \<and> 2 < unat (2 :: u16))" "length [10, 10, 10 :: u8] \<noteq> 4"
    by simp_all
  have c6: "decompress_row [3, 10] 2 4 1 = None"
    using malformed_row_rejected [OF r6] a6 by blast
  from r1 a1 c1 r2 a2 c2 r3 a3 c3 r4 a4 c4 r5 a5 c5 r6 a6 c6 show ?thesis by blast
qed

section \<open>The two-byte row length\<close>

lemma aif_write_compressed_rows_loop_records:
  "unat r \<le> unat height \<Longrightarrow>
   aif_write_compressed_rows_loop out pixels width height bpp r total_n =
     (out @ concat (map (row_record pixels width bpp) [unat r..<unat height]),
      total_n + sum_list (map (\<lambda>i. length (row_record pixels width bpp i)) [unat r..<unat height]))"
proof (induction out pixels width height bpp r total_n rule: aif_write_compressed_rows_loop.induct)
  case (1 out pixels width height bpp r total_n)
  show ?case
  proof (cases "r < height")
    case False
    with "1.prems" have "unat r = unat height" by (simp add: word_less_nat_alt)
    with False show ?thesis by (simp add: aif_write_compressed_rows_loop_done)
  next
    case True
    then have rlt: "unat r < unat height" by (simp add: word_less_nat_alt)
    have suc: "unat (r + 1) = Suc (unat r)" using True by (rule u32_less_Suc)
    from rlt suc have le': "unat (r + 1) \<le> unat height" by simp
    have up: "[unat r..<unat height] = unat r # [unat (r + 1)..<unat height]"
      using upt_conv_Cons [OF rlt] by (simp only: suc)
    have IH: "aif_write_compressed_rows_loop (out @ row_record pixels width bpp (unat r)) pixels width
        height bpp (r + 1) (total_n + length (row_record pixels width bpp (unat r))) =
      ((out @ row_record pixels width bpp (unat r))
          @ concat (map (row_record pixels width bpp) [unat (r + 1)..<unat height]),
       (total_n + length (row_record pixels width bpp (unat r)))
          + sum_list (map (\<lambda>i. length (row_record pixels width bpp i)) [unat (r + 1)..<unat height]))"
      using "1.IH" [OF True refl refl refl refl refl refl refl le']
      by (simp add: row_record_def [abs_def] Let_def)
    show ?thesis
      unfolding aif_write_compressed_rows_loop_step [OF True] IH up by simp
  qed
qed

lemma row_record_prefix:
  "unat (read_le_u16 (row_record pixels width bpp r) 0) =
     length (compress_row (drop (r * (unat width * bpp)) pixels) width bpp) mod 65536"
proof -
  let ?n = "length (compress_row (drop (r * (unat width * bpp)) pixels) width bpp)"
  have "read_le_u16 (row_record pixels width bpp r) 0
      = read_le_u16 [of_nat (?n AND 0xFF) :: u8, of_nat (drop_bit 8 ?n AND 0xFF)] 0"
    by (simp add: row_record_def Let_def read_le_u16_def)
  then show ?thesis
    by (simp only: read_le_u16_len_bytes unat_of_nat_u16)
qed

lemma compressed_row_65536:
  "length (compress_row (concat (replicate (unat (8355586 :: u32)) [0])) 8355586 1) = 65536"
proof -
  have "2 \<le> unat (8355586 :: u32)" by simp
  then have "compress_row (concat (replicate (unat (8355586 :: u32)) [0])) 8355586 1
      = write_repeat_blocks_loop (concat (replicate (unat (8355586 :: u32)) [0])) 0
          (unat (8355586 :: u32)) 1 []"
    by (rule compress_row_uniform) simp
  then have "length (compress_row (concat (replicate (unat (8355586 :: u32)) [0])) 8355586 1)
      = ((unat (8355586 :: u32) + 254) div 255) * (1 + 1)"
    by (simp only: length_write_repeat_blocks_loop list.size add_0)
  also have "\<dots> = 65536" by simp
  finally show ?thesis .
qed

lemma long_compressed_row:
  "65535 < length (compress_row (concat (replicate (unat (8355586 :: u32)) [0])) 8355586 1)"
  by (simp only: compressed_row_65536)

text \<open>
  Claim C10: \<open>aif_write_compressed_rows\<close> writes, for each row, a record made of a
  two-byte little-endian prefix and the row's compressed bytes; the prefix holds the
  compressed length reduced modulo \<open>2^16\<close>.  For a compressed length of at most 65535 the
  prefix is the true length; for a longer one it is not; and a well-formed row whose
  compressed length exceeds 65535 exists.
\<close>

theorem row_length_prefix_wraps:
  "fst (aif_write_compressed_rows out pixels width height bpp)
     = out @ concat (map (row_record pixels width bpp) [0..<unat height])
   \<and> drop 2 (row_record pixels width bpp r)
       = compress_row (drop (r * (unat width * bpp)) pixels) width bpp
   \<and> unat (read_le_u16 (row_record pixels width bpp r) 0)
       = length (compress_row (drop (r * (unat width * bpp)) pixels) width bpp) mod 2 ^ 16
   \<and> (length (compress_row (drop (r * (unat width * bpp)) pixels) width bpp) \<le> 65535 \<longrightarrow>
        unat (read_le_u16 (row_record pixels width bpp r) 0)
          = length (compress_row (drop (r * (unat width * bpp)) pixels) width bpp))
   \<and> (65535 < length (compress_row (drop (r * (unat width * bpp)) pixels) width bpp) \<longrightarrow>
        unat (read_le_u16 (row_record pixels width bpp r) 0)
          \<noteq> length (compress_row (drop (r * (unat width * bpp)) pixels) width bpp))
   \<and> (\<exists>row width bpp. (bpp = 1 \<or> bpp = 3) \<and> 1 \<le> unat width \<and> length row = unat width * bpp
        \<and> 65535 < length (compress_row row (width :: u32) bpp))"
proof -
  let ?n = "length (compress_row (drop (r * (unat width * bpp)) pixels) width bpp)"
  have 1: "fst (aif_write_compressed_rows out pixels width height bpp)
     = out @ concat (map (row_record pixels width bpp) [0..<unat height])"
    using aif_write_compressed_rows_loop_records [of 0 height out pixels width bpp 0]
    by (simp add: aif_write_compressed_rows_def)
  have 2: "drop 2 (row_record pixels width bpp r)
       = compress_row (drop (r * (unat width * bpp)) pixels) width bpp"
    by (simp add: row_record_def Let_def)
  have 3: "unat (read_le_u16 (row_record pixels width bpp r) 0) = ?n mod 2 ^ 16"
    using row_record_prefix [of pixels width bpp r] by simp
  have 4: "unat (read_le_u16 (row_record pixels width bpp r) 0) = ?n" if "?n \<le> 65535"
    using that unfolding 3 by simp
  have "?n mod 2 ^ 16 < 65536" by simp
  then have 5: "unat (read_le_u16 (row_record pixels width bpp r) 0) \<noteq> ?n" if "65535 < ?n"
    using that unfolding 3 by linarith
  have "((1 :: nat) = 1 \<or> (1 :: nat) = 3) \<and> 1 \<le> unat (8355586 :: u32)
      \<and> length (concat (replicate (unat (8355586 :: u32)) [0 :: u8])) = unat (8355586 :: u32) * 1
      \<and> 65535 < length (compress_row (concat (replicate (unat (8355586 :: u32)) [0])) 8355586 1)"
    using long_compressed_row by simp
  then have 6: "\<exists>row width bpp. (bpp = 1 \<or> bpp = 3) \<and> 1 \<le> unat width \<and> length row = unat width * bpp
        \<and> 65535 < length (compress_row row (width :: u32) bpp)"
    by blast
  from 1 2 3 4 5 6 show ?thesis by blast
qed

theorem row_length_prefix_wraps_witness:
  "length (compress_row (drop (0 * (unat (4 :: u32) * 1)) [10, 10, 10, 50]) 4 1) \<le> 65535
   \<and> unat (read_le_u16 (row_record [10, 10, 10, 50] 4 1 0) 0)
       = length (compress_row (drop (0 * (unat (4 :: u32) * 1)) [10, 10, 10, 50]) 4 1)
   \<and> 65535 < length (compress_row (drop (0 * (unat (8355586 :: u32) * 1))
                   (concat (replicate (unat (8355586 :: u32)) [0]))) 8355586 1)
   \<and> unat (read_le_u16 (row_record (concat (replicate (unat (8355586 :: u32)) [0])) 8355586 1 0) 0)
       \<noteq> length (compress_row (drop (0 * (unat (8355586 :: u32) * 1))
                   (concat (replicate (unat (8355586 :: u32)) [0]))) 8355586 1)"
proof -
  have "compress_row [10, 10, 10, 50] 4 1 = [3, 10, 0, 1, 50]" by code_simp
  then have h1: "length (compress_row (drop (0 * (unat (4 :: u32) * 1)) [10, 10, 10, 50]) 4 1) \<le> 65535"
    by simp
  have h2: "65535 < length (compress_row (drop (0 * (unat (8355586 :: u32) * 1))
                   (concat (replicate (unat (8355586 :: u32)) [0]))) 8355586 1)"
    using long_compressed_row by simp
  from row_length_prefix_wraps [of "[]" "[10, 10, 10, 50]" 4 1 1 0]
    row_length_prefix_wraps [of "[]" "concat (replicate (unat (8355586 :: u32)) [0])" 8355586 1 1 0]
    h1 h2
  show ?thesis by blast
qed

section \<open>Round trip\<close>

lemma decompress_row_empty:
  "0 < row_bytes \<Longrightarrow> decompress_row cdata 0 row_bytes bpp = None"
  using decompress_row_loop_exit [of "[]" row_bytes 0 0 cdata bpp]
  by (simp add: decompress_row_def)

lemma aif_decompress_image_loop_wrapped:
  assumes "row < height" and "0 < unat width * bpp"
    and "length buffer = 65536"
  shows "aif_decompress_image_loop
           (([of_nat (length buffer AND 0xFF), of_nat (drop_bit 8 (length buffer) AND 0xFF)]
             @ buffer) @ more) width height bpp row full_pixels
       = Inl InvalidCompressedData"
proof -
  let ?lb = "[of_nat (length buffer AND 0xFF), of_nat (drop_bit 8 (length buffer) AND 0xFF)] :: u8 list"
  have "read_le_u16 ?lb 0 = (of_nat (length buffer) :: u16)"
    by (rule read_le_u16_len_bytes)
  also have "\<dots> = 0" unfolding assms(3) by simp
  finally have rl: "read_le_u16 ?lb 0 = 0" .
  have dec: "decompress_row [] 0 (unat width * bpp) bpp = None"
    using assms(2) by (rule decompress_row_empty)
  show ?thesis
    by (subst aif_decompress_image_loop.simps) (simp add: assms(1) rl dec Let_def)
qed

text \<open>
  Claim C1, as stated: for every row of \<open>width \<ge> 1\<close> pixels with \<open>bpp\<close> 1 or 3,
  \<open>decompress_row\<close> run on the bytes that \<open>compress_row\<close> produced, with the declared
  compressed length equal to the number of bytes produced, reproduces the row, and likewise
  for every row of an image encoded by \<open>aif_write_compressed_rows\<close>.  The declared length
  is a 16-bit value, and the number of bytes \<open>compress_row\<close> produces is not bounded by
  65535.  For the RGB8 row of 6000000 pixels \<open>(1, 2, 3)\<close> no declared length makes
  \<open>decompress_row\<close> return the row from the encoder's stream.  The image of one GRAY8 row
  of 8355586 zero pixels compresses to 65536 bytes, \<open>aif_write_compressed_rows\<close> writes
  the length prefix 0 in front of them, and \<open>aif_decompress_image\<close> run on the written
  record fails with \<open>InvalidCompressedData\<close>.
\<close>

theorem round_trip_counterexample:
  "\<not> (\<exists>row_len.
        decompress_row (compress_row (concat (replicate 6000000 [1, 2, 3])) 6000000 3)
          row_len (6000000 * 3) 3 = Some (concat (replicate 6000000 [1, 2, 3])))
   \<and> aif_decompress_image
        (drop (length ([] :: u8 list))
           (fst (aif_write_compressed_rows [] (concat (replicate (unat (8355586 :: u32)) [0]))
                   8355586 1 1)))
        8355586 1 1 = Inl InvalidCompressedData"
proof
  show "\<not> (\<exists>row_len.
        decompress_row (compress_row (concat (replicate 6000000 [1, 2, 3])) 6000000 3)
          row_len (6000000 * 3) 3 = Some (concat (replicate 6000000 [1, 2, 3])))"
  proof
    assume "\<exists>row_len.
        decompress_row (compress_row (concat (replicate 6000000 [1, 2, 3])) 6000000 3)
          row_len (6000000 * 3) 3 = Some (concat (replicate 6000000 [1, 2, 3]))"
    then obtain row_len where
      "decompress_row (compress_row (concat (replicate 6000000 [1, 2, 3])) 6000000 3)
          row_len (6000000 * 3) 3 = Some (concat (replicate 6000000 [1, 2, 3]))" ..
    then have "((6000000 :: nat) * 3) * (1 + 3) \<le> 255 * 3 * 65535"
      by (rule decompress_row_capacity)
    then show False by simp
  qed
next
  let ?pixels = "concat (replicate (unat (8355586 :: u32)) [0 :: u8])"
  let ?buffer = "compress_row ?pixels 8355586 1"
  have up: "[unat (0 :: u32)..<unat (1 :: u32)] = [0]" by simp
  have "fst (aif_write_compressed_rows [] ?pixels 8355586 1 1)
      = [] @ concat (map (row_record ?pixels 8355586 1) [unat (0 :: u32)..<unat (1 :: u32)])"
    using aif_write_compressed_rows_loop_records [of 0 1 "[]" ?pixels 8355586 1 0]
    by (simp add: aif_write_compressed_rows_def)
  also have "\<dots> = row_record ?pixels 8355586 1 0" unfolding up by simp
  also have "\<dots> = ([of_nat (length ?buffer AND 0xFF), of_nat (drop_bit 8 (length ?buffer) AND 0xFF)]
             @ ?buffer) @ []"
    by (simp add: row_record_def Let_def)
  finally have written: "fst (aif_write_compressed_rows [] ?pixels 8355586 1 1)
      = ([of_nat (length ?buffer AND 0xFF), of_nat (drop_bit 8 (length ?buffer) AND 0xFF)]
             @ ?buffer) @ []" .
  have "aif_decompress_image_loop
          (([of_nat (length ?buffer AND 0xFF), of_nat (drop_bit 8 (length ?buffer) AND 0xFF)]
             @ ?buffer) @ []) 8355586 1 1 0 [] = Inl InvalidCompressedData"
    by (rule aif_decompress_image_loop_wrapped [OF _ _ compressed_row_65536]) simp_all
  then show "aif_decompress_image
        (drop (length ([] :: u8 list)) (fst (aif_write_compressed_rows [] ?pixels 8355586 1 1)))
        8355586 1 1 = Inl InvalidCompressedData"
    unfolding written by (simp add: aif_decompress_image_def)
qed

text \<open>
  Claim C1, amended: for every row of \<open>width \<ge> 1\<close> pixels with \<open>bpp\<close> 1 or 3 whose
  compressed length is at most 65535, so that the 16-bit declared length can equal the number
  of bytes \<open>compress_row\<close> produced, \<open>decompress_row\<close> run on those bytes with that declared
  length and the expected output length \<open>width * bpp\<close> succeeds and returns the row; and
  for a whole image whose rows each compress to at most 65535 bytes,
  \<open>aif_decompress_image\<close> run on the records that \<open>aif_write_compressed_rows\<close> appended to
  the output file returns the image.
\<close>

theorem round_trip:
  assumes "1 \<le> unat width" and "bpp = 1 \<or> bpp = 3"
    and "length row = unat width * bpp"
    and "unat row_len = length (compress_row row width bpp)"
    and "length pixels = unat height * (unat width * bpp)"
    and "list_all (\<lambda>r. length (compress_row (drop (r * (unat width * bpp)) pixels) width bpp) < 65536)
           [0..<unat height]"
  shows "decompress_row (compress_row row width bpp) row_len (unat width * bpp) bpp = Some row
    \<and> aif_decompress_image
          (drop (length out) (fst (aif_write_compressed_rows out pixels width height bpp)))
          width height bpp = Inr pixels"
proof -
  from assms(2) have bpp: "0 < bpp" by auto
  have "decompress_row (compress_row row width bpp) row_len (unat width * bpp) bpp
      = Some (copy_bytes row 0 (unat width * bpp))"
    using bpp assms(4) by (rule decompress_compress_row)
  then have row: "decompress_row (compress_row row width bpp) row_len (unat width * bpp) bpp = Some row"
    using copy_bytes_whole [of row] assms(3) by simp
  have rows: "length (compress_row (drop (i * (unat width * bpp)) pixels) width bpp) < 65536"
    if "i < unat height" for i
    using assms(6) that by (simp add: list_all_iff)
  have "aif_decompress_image_loop
          (drop (length out) (fst (aif_write_compressed_rows_loop out pixels width height bpp 0 0)) @ [])
          width height bpp 0 []
      = Inr ([] @ copy_bytes pixels (unat (0 :: u32) * (unat width * bpp))
                   ((unat height - unat (0 :: u32)) * (unat width * bpp)))"
    using bpp assms(5) rows by (intro decompress_written_rows) simp_all
  then have img: "aif_decompress_image
          (drop (length out) (fst (aif_write_compressed_rows out pixels width height bpp)))
          width height bpp = Inr pixels"
    using copy_bytes_whole [of pixels] assms(5)
    by (simp add: aif_decompress_image_def aif_write_compressed_rows_def)
  from row img show ?thesis ..
qed

theorem round_trip_witness:
  "1 \<le> unat (4 :: u32) \<and> ((1 :: nat) = 1 \<or> (1 :: nat) = 3)
   \<and> length [10, 10, 10, 50 :: u8] = unat (4 :: u32) * 1
   \<and> unat (5 :: u16) = length (compress_row [10, 10, 10, 50] 4 1)
   \<and> length [10, 10, 10, 50, 1, 2, 3, 3 :: u8] = unat (2 :: u32) * (unat (4 :: u32) * 1)
   \<and> list_all (\<lambda>r. length (compress_row (drop (r * (unat (4 :: u32) * 1))
                         [10, 10, 10, 50, 1, 2, 3, 3]) 4 1) < 65536) [0..<unat (2 :: u32)]
   \<and> decompress_row (compress_row [10, 10, 10, 50] 4 1) 5 (unat (4 :: u32) * 1) 1
         = Some [10, 10, 10, 50]
   \<and> aif_decompress_image
         (drop (length ([] :: u8 list))
            (fst (aif_write_compressed_rows [] [10, 10, 10, 50, 1, 2, 3, 3] 4 2 1)))
         4 2 1 = Inr [10, 10, 10, 50, 1, 2, 3, 3]"
proof -
  have h1: "1 \<le> unat (4 :: u32)" by simp
  have h2: "(1 :: nat) = 1 \<or> (1 :: nat) = 3" by simp
  have h3: "length [10, 10, 10, 50 :: u8] = unat (4 :: u32) * 1" by simp
  have h4: "unat (5 :: u16) = length (compress_row [10, 10, 10, 50] 4 1)" by code_simp
  have h5: "length [10, 10, 10, 50, 1, 2, 3, 3 :: u8] = unat (2 :: u32) * (unat (4 :: u32) * 1)"
    by simp
  have h6: "list_all (\<lambda>r. length (compress_row (drop (r * (unat (4 :: u32) * 1))
                         [10, 10, 10, 50, 1, 2, 3, 3]) 4 1) < 65536) [0..<unat (2 :: u32)]"
  proof -
    have "compress_row [10, 10, 10, 50, 1, 2, 3, 3] 4 1 = [3, 10, 0, 1, 50]" by code_simp
    then have a: "length (compress_row [10, 10, 10, 50, 1, 2, 3, 3] 4 1) < 65536" by simp
    have "compress_row [1, 2, 3, 3] 4 1 = [0, 2, 1, 2, 2, 3]" by code_simp
    then have b: "length (compress_row [1, 2, 3, 3] 4 1) < 65536" by simp
    have "[0..<unat (2 :: u32)] = [0, 1]" by (simp add: upt_conv_Cons)
    then show ?thesis using a b by simp
  qed
  from round_trip [OF h1 h2 h3 h4 h5 h6, of "[]"] h1 h2 h3 h4 h5 h6 show ?thesis
    by blast
qed

section \<open>Header validation in the stages\<close>

lemma stage5_compress_rejects:
  assumes "aif_open_and_read_header in_file = Inr (header, fp)"
    and "\<not> aif_magic_valid header
       \<or> \<not> aif_format_valid (header ! AIF_PXL_FMT_OFFSET)
       \<or> (header ! AIF_COMPRESSION_OFFSET \<noteq> AIF_COMPRESSION_NONE
            \<and> header ! AIF_COMPRESSION_OFFSET \<noteq> AIF_COMPRESSION_RLE)
       \<or> \<not> aif_dim_valid (read_le_u32 header AIF_WIDTH_OFFSET)
       \<or> \<not> aif_dim_valid (read_le_u32 header AIF_HEIGHT_OFFSET)"
  shows "stage5_compress in_file = Exit NotValidAIF None"
  using assms by (auto simp: stage5_compress_def Let_def)

lemma stage4_decompress_rejects:
  assumes "aif_open_and_read_header in_file = Inr (header, fp)"
    and "\<not> aif_magic_valid header
       \<or> \<not> aif_format_valid (header ! AIF_PXL_FMT_OFFSET)
       \<or> \<not> aif_dim_valid (read_le_u32 header AIF_WIDTH_OFFSET)
       \<or> \<not> aif_dim_valid (read_le_u32 header AIF_HEIGHT_OFFSET)"
  shows "stage4_decompress in_file = Exit NotValidAIF None"
  using assms by (auto simp: stage4_decompress_def Let_def)

lemma stage4_decompress_ignores_compression:
  "stage4_decompress (in_file[AIF_COMPRESSION_OFFSET := c]) = stage4_decompress in_file"
proof (cases "length in_file < AIF_HEADER_SIZE")
  case True
  then show ?thesis by (simp add: stage4_decompress_def aif_open_and_read_header_def)
next
  case False
  let ?h = "take AIF_HEADER_SIZE in_file"
  have h: "take AIF_HEADER_SIZE (in_file[AIF_COMPRESSION_OFFSET := c]) = ?h[AIF_COMPRESSION_OFFSET := c]"
    by (simp add: take_update_swap)
  have d: "drop AIF_HEADER_SIZE (in_file[AIF_COMPRESSION_OFFSET := c]) = drop AIF_HEADER_SIZE in_file"
    by (simp add: AIF_HEADER_SIZE_def AIF_COMPRESSION_OFFSET_def)
  have m: "aif_magic_valid (?h[AIF_COMPRESSION_OFFSET := c]) = aif_magic_valid ?h"
    by (simp add: aif_magic_valid_def AIF_COMPRESSION_OFFSET_def)
  have f: "?h[AIF_COMPRESSION_OFFSET := c] ! AIF_PXL_FMT_OFFSET = ?h ! AIF_PXL_FMT_OFFSET"
    by (simp add: AIF_COMPRESSION_OFFSET_def AIF_PXL_FMT_OFFSET_def)
  have w: "read_le_u32 (?h[AIF_COMPRESSION_OFFSET := c]) AIF_WIDTH_OFFSET = read_le_u32 ?h AIF_WIDTH_OFFSET"
    by (simp add: read_le_u32_def AIF_COMPRESSION_OFFSET_def AIF_WIDTH_OFFSET_def)
  have g: "read_le_u32 (?h[AIF_COMPRESSION_OFFSET := c]) AIF_HEIGHT_OFFSET = read_le_u32 ?h AIF_HEIGHT_OFFSET"
    by (simp add: read_le_u32_def AIF_COMPRESSION_OFFSET_def AIF_HEIGHT_OFFSET_def)
  from False show ?thesis
    by (simp add: stage4_decompress_def aif_open_and_read_header_def h d m f w g Let_def
        del: take_update_cancel drop_update_cancel split: sum.splits)
qed

text \<open>
  Claim C5: each of brighten, convert-color, decompress and compress rejects an input
  whose magic, pixel format, compression byte, width or height is invalid, before any
  pixel data is processed and without producing output.  \<open>stage5_compress\<close> does so
  (the source of stages 2 and 3, not modelled here, has the same checks);
  \<open>stage4_decompress\<close> never reads the compression byte.  For the GRAY8 1x1 file below, whose compression byte is 7, it
  decodes the pixel data and writes an output file, where \<open>stage5_compress\<close> rejects
  the same file.
\<close>

theorem stage4_accepts_invalid_compression:
  "stage4_decompress
     [0x41, 0x49, 0x46, 0, 0, 0, 2, 7, 1, 0, 0, 0, 1, 0, 0, 0, 20, 0, 0, 0, 2, 0, 1, 0x2A]
     = Done [0x41, 0x49, 0x46, 0, 0x12, 0xFD, 2, 0, 1, 0, 0, 0, 1, 0, 0, 0, 20, 0, 0, 0, 0x2A]
   \<and> stage5_compress
     [0x41, 0x49, 0x46, 0, 0, 0, 2, 7, 1, 0, 0, 0, 1, 0, 0, 0, 20, 0, 0, 0, 2, 0, 1, 0x2A]
     = Exit NotValidAIF None"
  by code_simp

theorem stage4_accepts_invalid_compression_witness:
  "aif_magic_valid [0x41, 0x49, 0x46, 0, 0, 0, 2, 7, 1, 0, 0, 0, 1, 0, 0, 0, 20, 0, 0, 0]
   \<and> aif_format_valid ([0x41, 0x49, 0x46, 0, 0, 0, 2, 7, 1, 0, 0, 0, 1, 0, 0, 0, 20, 0, 0, 0]
         ! AIF_PXL_FMT_OFFSET)
   \<and> aif_dim_valid (read_le_u32 [0x41, 0x49, 0x46, 0, 0, 0, 2, 7, 1, 0, 0, 0, 1, 0, 0, 0, 20, 0, 0, 0]
         AIF_WIDTH_OFFSET)
   \<and> aif_dim_valid (read_le_u32 [0x41, 0x49, 0x46, 0, 0, 0, 2, 7, 1, 0, 0, 0, 1, 0, 0, 0, 20, 0, 0, 0]
         AIF_HEIGHT_OFFSET)
   \<and> [0x41, 0x49, 0x46, 0, 0, 0, 2, 7, 1, 0, 0, 0, 1, 0, 0, 0, 20, 0, 0, 0] ! AIF_COMPRESSION_OFFSET
         \<noteq> AIF_COMPRESSION_NONE
   \<and> [0x41, 0x49, 0x46, 0, 0, 0, 2, 7, 1, 0, 0, 0, 1, 0, 0, 0, 20, 0, 0, 0] ! AIF_COMPRESSION_OFFSET
         \<noteq> AIF_COMPRESSION_RLE
   \<and> stage4_decompress
         [0x41, 0x49, 0x46, 0, 0, 0, 2, 7, 1, 0, 0, 0, 1, 0, 0, 0, 20, 0, 0, 0, 2, 0, 1, 0x2A]
         \<noteq> Exit NotValidAIF None"
proof -
  let ?h = "[0x41, 0x49, 0x46, 0, 0, 0, 2, 7, 1, 0, 0, 0, 1, 0, 0, 0, 20, 0, 0, 0] :: u8 list"
  have v: "aif_magic_valid ?h" "aif_format_valid (?h ! AIF_PXL_FMT_OFFSET)"
    "aif_dim_valid (read_le_u32 ?h AIF_WIDTH_OFFSET)"
    "aif_dim_valid (read_le_u32 ?h AIF_HEIGHT_OFFSET)"
    "?h ! AIF_COMPRESSION_OFFSET \<noteq> AIF_COMPRESSION_NONE"
    "?h ! AIF_COMPRESSION_OFFSET \<noteq> AIF_COMPRESSION_RLE"
    by code_simp+
  from stage4_accepts_invalid_compression
  have "stage4_decompress
         [0x41, 0x49, 0x46, 0, 0, 0, 2, 7, 1, 0, 0, 0, 1, 0, 0, 0, 20, 0, 0, 0, 2, 0, 1, 0x2A]
         \<noteq> Exit NotValidAIF None"
    by simp
  with v show ?thesis by blast
qed

end
